theory Spec2Isabelle
  imports Main "HOL-Library.Word"
begin

unbundle bit_operations_syntax

section \<open>The floppy bridge of WinUAE: data model\<close>

text \<open>
  The development embeds the bridge between the emulator and the floppy hardware
  (\<^verbatim>\<open>od-win32/ArduinoFloppyBridge.cpp\<close>, \<^verbatim>\<open>ArduinoInterface.cpp\<close>,
  \<^verbatim>\<open>GreaseWeazleInterface.cpp\<close>). C++ \<^verbatim>\<open>int\<close> values are \<open>int\<close> (no claim
  depends on signed overflow, which C++ leaves undefined), \<^verbatim>\<open>DWORD\<close> tick counts are
  \<open>32 word\<close> so that the subtraction of two tick counts wraps as in the source, bytes are
  \<open>8 word\<close>. \<^verbatim>\<open>GetTickCount()\<close> is the parameter \<open>now\<close> of every operation that reads the
  clock. The model is sequential: critical sections and the queue semaphore order the two
  threads and carry no data, so they are not part of the state; the manual-reset event
  \<^verbatim>\<open>m_readBufferAvailable\<close> is a flag.
\<close>

type_synonym DWORD = "32 word"
type_synonym byte = "8 word"

definition THEORETICAL_MINIMUM_TRACK_LENGTH :: int where
  "THEORETICAL_MINIMUM_TRACK_LENGTH = 12134"

definition DRIVE_STEP_GARBAGE_TIME :: DWORD where
  "DRIVE_STEP_GARBAGE_TIME = 500"

definition WRITE_PRECOMP_START :: int where
  "WRITE_PRECOMP_START = 40"

definition ARD_MFM_BUFFER_MAX_TRACK_LENGTH :: nat where
  "ARD_MFM_BUFFER_MAX_TRACK_LENGTH = 0x3800"

definition ARD_MAX_CYLINDER_BRIDGE :: int where
  "ARD_MAX_CYLINDER_BRIDGE = 82"

text \<open>
  Modelled from the spec: the enum \<^verbatim>\<open>DiskSurface\<close> of the bridge is declared in
  \<^verbatim>\<open>ArduinoInterface.h\<close>, which is not among the sources; it names the two sides of
  the spec (lower, upper), as the enum of the same name does in
  \<^verbatim>\<open>GreaseWeazleInterface.h\<close>.
\<close>

datatype DiskSurface = dsUpper | dsLower

definition boolSideToDiskSurface :: "bool \<Rightarrow> DiskSurface" where
  "boolSideToDiskSurface surface = (if surface then dsUpper else dsLower)"

definition diskSurfaceToBoolSide :: "DiskSurface \<Rightarrow> bool" where
  "diskSurfaceToBoolSide side = (side = dsUpper)"

text \<open>
  Modelled from the spec: the struct \<^verbatim>\<open>MFMSample\<close> is declared in
  \<^verbatim>\<open>ArduinoInterface.h\<close>, which is not among the sources. The spec (section 3) makes a
  sample eight MFM bits packed MSB-first in one byte with one speed value per bit; the
  bridge reads \<^verbatim>\<open>mfmData\<close> as a byte and \<^verbatim>\<open>speed[0..7]\<close> as small unsigned numbers
  (100 is nominal).
\<close>

record MFMSample =
  speed :: "nat \<Rightarrow> byte"
  mfmData :: byte

record MFMCache =
  mfmBuffer :: "MFMSample list"
  ready :: bool
  amountReadInBits :: int

text \<open>The field \<^verbatim>\<open>next\<close> of the source is \<open>next_c\<close> here (\<open>next\<close> is a keyword).\<close>

record MFMCaches =
  current :: MFMCache
  next_c :: MFMCache
  startBitPatterns :: "byte list"

datatype QueueCommand =
  qcTerminate | qcMotorOn | qcMotorOff | writeMFMData | qcGotoToTrack | qcSelectDiskSide

text \<open>The union \<^verbatim>\<open>option\<close> of a queue item holds an int or a bool.\<close>

datatype QueueOption = OptI int | OptB bool

record QueueInfo =
  command :: QueueCommand
  qoption :: QueueOption

record TrackToWrite =
  wbuffer :: "byte list"
  side :: DiskSurface
  trackNumber :: byte
  floppyBufferSizeBits :: nat
  writeFromIndex :: bool

text \<open>
  The bridge object. \<open>m_mfmRead\<close> is the array \<^verbatim>\<open>m_mfmRead[82][2]\<close>; the model gives an
  entry to every pair of an int and a surface, and the array's rows are the cylinders from
  0 up to \<open>ARD_MAX_CYLINDER_BRIDGE\<close> (the source checks no cylinder against the bound).
  \<open>wbuffer\<close> is the array \<^verbatim>\<open>mfmBuffer\<close> of \<^verbatim>\<open>TrackToWrite\<close>.
\<close>

record Bridge =
  m_pendingTrackWrites :: "TrackToWrite list"
  m_currentWriteTrack :: TrackToWrite
  m_currentWriteStartMfmPosition :: int
  m_delayStreaming :: bool
  m_delayStreamingStart :: DWORD
  m_mfmRead :: "int \<Rightarrow> DiskSurface \<Rightarrow> MFMCaches"
  m_currentTrack :: int
  m_actualCurrentCylinder :: int
  m_writeProtected :: bool
  m_diskInDrive :: bool
  m_motorSpinningUp :: bool
  m_motorSpinningUpStart :: DWORD
  m_motorIsReady :: bool
  m_isMotorRunning :: bool
  m_lastDiskCheckTime :: DWORD
  m_lastDriveStepTime :: DWORD
  m_floppySide :: DiskSurface
  m_actualFloppySide :: DiskSurface
  m_queue :: "QueueInfo list"
  m_readBufferAvailable :: bool

section \<open>The bit-level read interface\<close>

text \<open>
  A read of \<^verbatim>\<open>mfmBuffer[i]\<close> outside the array is undefined in C++; the model makes it
  the fault \<open>OutOfBounds\<close>.
\<close>

datatype fault = OutOfBounds

definition sampleAt :: "MFMCache \<Rightarrow> int \<Rightarrow> fault + MFMSample" where
  "sampleAt c i =
     (if 0 \<le> i \<and> nat i < length (mfmBuffer c) then Inr (mfmBuffer c ! nat i)
      else Inl OutOfBounds)"

definition activeCache :: "Bridge \<Rightarrow> MFMCaches" where
  "activeCache b = m_mfmRead b (m_currentTrack b) (m_floppySide b)"

text \<open>The clamp of \<^verbatim>\<open>getMFMSpeed\<close>, written twice in the source with the same text.\<close>

definition clampSpeed :: "int \<Rightarrow> int" where
  "clampSpeed speed0 =
     (let speed1 = (if speed0 < 700 then 700 else speed0)
      in if speed1 > 3000 then 3000 else speed1)"

definition speedOf :: "MFMCache \<Rightarrow> int \<Rightarrow> int \<Rightarrow> fault + int" where
  "speedOf c mfmPositionByte mfmPositionBit =
     (case sampleAt c mfmPositionByte of
        Inl e \<Rightarrow> Inl e
      | Inr s \<Rightarrow> Inr (clampSpeed (10 * uint (speed s (nat mfmPositionBit)))))"

definition getMFMSpeed :: "Bridge \<Rightarrow> DWORD \<Rightarrow> int \<Rightarrow> fault + int" where
  "getMFMSpeed b now mfmPositionBits =
     (if \<not> m_diskInDrive b \<or> \<not> m_motorIsReady b then Inr 1000
      else
        let mfmPositionByte = drop_bit 3 mfmPositionBits;
            mfmPositionBit = 7 - (mfmPositionBits AND 7)
        in if ready (current (activeCache b))
           then speedOf (current (activeCache b)) mfmPositionByte mfmPositionBit
           else if now - m_lastDriveStepTime b < DRIVE_STEP_GARBAGE_TIME then Inr 1000
           else if \<not> ready (current (activeCache b))
                   \<and> mfmPositionBits < amountReadInBits (next_c (activeCache b))
           then speedOf (next_c (activeCache b)) mfmPositionByte mfmPositionBit
           else Inr 1000)"

definition bitOf :: "MFMCache \<Rightarrow> int \<Rightarrow> int \<Rightarrow> fault + bool" where
  "bitOf c mfmPositionByte mfmPositionBit =
     (case sampleAt c mfmPositionByte of
        Inl e \<Rightarrow> Inl e
      | Inr s \<Rightarrow> Inr ((uint (mfmData s) AND push_bit (nat mfmPositionBit) 1) \<noteq> 0))"

text \<open>
  The polling loop of \<^verbatim>\<open>getMFMBit\<close>: \<open>n\<close> iterations are left, and \<open>obs a\<close> is the
  active cache entry as the emulator thread sees it in iteration \<open>a\<close> (the worker thread
  fills and promotes buffers between two iterations, while the emulator thread waits 5 ms
  on the event).
\<close>

fun getMFMBit_poll :: "(nat \<Rightarrow> MFMCaches) \<Rightarrow> int \<Rightarrow> nat \<Rightarrow> nat \<Rightarrow> fault + bool" where
  "getMFMBit_poll obs mfmPositionBits a 0 = Inr False"
| "getMFMBit_poll obs mfmPositionBits a (Suc n) =
     (let mfmPositionByte = drop_bit 3 mfmPositionBits;
          mfmPositionBit = 7 - (mfmPositionBits AND 7)
      in if \<not> ready (current (obs a))
         then if mfmPositionBits < amountReadInBits (next_c (obs a))
              then bitOf (next_c (obs a)) mfmPositionByte mfmPositionBit
              else getMFMBit_poll obs mfmPositionBits (a + 1) n
         else bitOf (current (obs a)) mfmPositionByte mfmPositionBit)"

definition getMFMBit :: "Bridge \<Rightarrow> (nat \<Rightarrow> MFMCaches) \<Rightarrow> DWORD \<Rightarrow> int \<Rightarrow> fault + bool" where
  "getMFMBit b obs now mfmPositionBits =
     (if \<not> m_diskInDrive b \<or> \<not> m_motorIsReady b then Inr False
      else
        let mfmPositionByte = drop_bit 3 mfmPositionBits;
            mfmPositionBit = 7 - (mfmPositionBits AND 7)
        in if ready (current (activeCache b))
           then bitOf (current (activeCache b)) mfmPositionByte mfmPositionBit
           else if now - m_lastDriveStepTime b < DRIVE_STEP_GARBAGE_TIME then Inr False
           else getMFMBit_poll obs mfmPositionBits 0 (600 div 5))"

definition isMFMPositionAtIndex :: "Bridge \<Rightarrow> int \<Rightarrow> bool" where
  "isMFMPositionAtIndex b mfmPositionBits =
     (if ready (current (activeCache b))
      then mfmPositionBits = 0 \<or> mfmPositionBits = amountReadInBits (current (activeCache b))
      else mfmPositionBits = 0)"

definition maxMFMBitPosition :: "Bridge \<Rightarrow> int" where
  "maxMFMBitPosition b =
     (if ready (current (activeCache b)) then amountReadInBits (current (activeCache b))
      else max (THEORETICAL_MINIMUM_TRACK_LENGTH * 8)
               (amountReadInBits (next_c (activeCache b))))"

definition isDiskInDrive :: "Bridge \<Rightarrow> bool" where
  "isDiskInDrive b = m_diskInDrive b"

text \<open>\<^verbatim>\<open>hasDiskChanged\<close> returns its answer and the bridge it leaves behind.\<close>

definition hasDiskChanged :: "Bridge \<Rightarrow> bool \<times> Bridge" where
  "hasDiskChanged b = (\<not> m_diskInDrive b, b)"

definition isReady :: "Bridge \<Rightarrow> bool" where
  "isReady b = (m_motorIsReady b \<and> \<not> m_motorSpinningUp b)"

section \<open>The command queue and the write buffer (emulator thread)\<close>

text \<open>
  One call of an operation reads one value of the clock. \<^verbatim>\<open>m_io->abortReadStreaming()\<close>
  only signals the device and leaves the bridge as it is.
\<close>

definition pushOntoQueue :: "Bridge \<Rightarrow> QueueInfo \<Rightarrow> Bridge" where
  "pushOntoQueue b info = b\<lparr>m_queue := m_queue b @ [info]\<rparr>"

definition queueCommandI :: "Bridge \<Rightarrow> QueueCommand \<Rightarrow> int \<Rightarrow> Bridge" where
  "queueCommandI b cmd optionI = pushOntoQueue b \<lparr>command = cmd, qoption = OptI optionI\<rparr>"

definition queueCommandB :: "Bridge \<Rightarrow> QueueCommand \<Rightarrow> bool \<Rightarrow> Bridge" where
  "queueCommandB b cmd optionB = pushOntoQueue b \<lparr>command = cmd, qoption = OptB optionB\<rparr>"

text \<open>\<^verbatim>\<open>trackNumber = -1\<close> stores 255 in the unsigned char.\<close>

definition resetWriteBuffer :: "Bridge \<Rightarrow> Bridge" where
  "resetWriteBuffer b =
     b\<lparr>m_currentWriteTrack :=
         (m_currentWriteTrack b)\<lparr>writeFromIndex := False, floppyBufferSizeBits := 0,
                                 trackNumber := word_of_int (- 1)\<rparr>,
       m_currentWriteStartMfmPosition := 0\<rparr>"

definition resetEventUnlessReady :: "Bridge \<Rightarrow> Bridge" where
  "resetEventUnlessReady b =
     (if \<not> ready (current (activeCache b)) then b\<lparr>m_readBufferAvailable := False\<rparr> else b)"

definition switchDiskSide :: "Bridge \<Rightarrow> DWORD \<Rightarrow> bool \<Rightarrow> Bridge" where
  "switchDiskSide b now sideB =
     (if boolSideToDiskSurface sideB \<noteq> m_floppySide b then
        let b1 = resetWriteBuffer b;
            b2 = b1\<lparr>m_floppySide := boolSideToDiskSurface sideB\<rparr>;
            b3 = resetEventUnlessReady b2;
            b4 = b3\<lparr>m_lastDriveStepTime := now\<rparr>
        in queueCommandB b4 qcSelectDiskSide sideB
      else b)"

definition gotoCylinder :: "Bridge \<Rightarrow> DWORD \<Rightarrow> int \<Rightarrow> bool \<Rightarrow> Bridge" where
  "gotoCylinder b now trackNo sideB =
     (if m_currentTrack b = trackNo then b
      else
        let b1 = resetWriteBuffer b;
            b2 = b1\<lparr>m_currentTrack := trackNo\<rparr>;
            b3 = b2\<lparr>m_lastDriveStepTime := now\<rparr>;
            b4 = switchDiskSide b3 now sideB
        in if m_queue b4 \<noteq> [] \<and> command (last (m_queue b4)) = qcGotoToTrack
           then resetEventUnlessReady
                  (b4\<lparr>m_queue := butlast (m_queue b4)
                                   @ [(last (m_queue b4))\<lparr>qoption := OptI trackNo\<rparr>]\<rparr>)
           else queueCommandI (resetEventUnlessReady b4) qcGotoToTrack trackNo)"

definition setMotorStatus :: "Bridge \<Rightarrow> DWORD \<Rightarrow> bool \<Rightarrow> bool \<Rightarrow> Bridge" where
  "setMotorStatus b now sideB turnOn =
     (let b1 = switchDiskSide b now sideB
      in if m_isMotorRunning b1 = turnOn then b1
         else queueCommandI
                (b1\<lparr>m_isMotorRunning := turnOn, m_motorIsReady := False,
                    m_motorSpinningUp := False\<rparr>)
                (if turnOn then qcMotorOn else qcMotorOff) 0)"

text \<open>
  \<^verbatim>\<open>writeShortToBuffer(bool side, unsigned int track, unsigned short mfmData, int
  mfmPosition)\<close>. The unsigned track is passed on to \<^verbatim>\<open>gotoCylinder(int, bool)\<close>, and stored
  in the unsigned char \<^verbatim>\<open>trackNumber\<close>. The two stores into the array are list updates.
\<close>

definition writeShortToBuffer ::
  "Bridge \<Rightarrow> DWORD \<Rightarrow> bool \<Rightarrow> 32 word \<Rightarrow> 16 word \<Rightarrow> int \<Rightarrow> Bridge" where
  "writeShortToBuffer b now sideB track mfmData16 mfmPosition =
     (let b1 = switchDiskSide b now sideB;
          b2 = gotoCylinder b1 now (sint track) sideB;
          b3 = b2\<lparr>m_delayStreaming := True, m_delayStreamingStart := now\<rparr>;
          w = m_currentWriteTrack b3
      in if floppyBufferSizeBits w < ARD_MFM_BUFFER_MAX_TRACK_LENGTH * 8 - 16 then
           let first = (floppyBufferSizeBits w = 0);
               w1 = (if first
                     then w\<lparr>trackNumber := ucast track, side := boolSideToDiskSurface sideB\<rparr>
                     else w);
               i = drop_bit 3 (floppyBufferSizeBits w1);
               w2 = w1\<lparr>wbuffer := (wbuffer w1)[i := ucast (drop_bit 8 mfmData16)]\<rparr>;
               w3 = w2\<lparr>wbuffer := (wbuffer w2)[i + 1 := ucast (mfmData16 AND 0xFF)]\<rparr>;
               w4 = w3\<lparr>floppyBufferSizeBits := floppyBufferSizeBits w3 + 16\<rparr>
           in b3\<lparr>m_currentWriteTrack := w4,
                 m_currentWriteStartMfmPosition :=
                   (if first then mfmPosition else m_currentWriteStartMfmPosition b3)\<rparr>
         else b3)"

text \<open>
  \<^verbatim>\<open>commitWriteBuffer(bool side, unsigned int track)\<close> returns the new track length and
  the bridge. The cache entry it invalidates is \<^verbatim>\<open>m_mfmRead[track][m_floppySide]\<close>.
\<close>

definition invalidateEntry :: "MFMCaches \<Rightarrow> MFMCaches" where
  "invalidateEntry e =
     e\<lparr>current := (current e)\<lparr>ready := False\<rparr>,
       next_c := (next_c e)\<lparr>amountReadInBits := 0, ready := False\<rparr>\<rparr>"

definition updEntry ::
  "Bridge \<Rightarrow> int \<Rightarrow> DiskSurface \<Rightarrow> (MFMCaches \<Rightarrow> MFMCaches) \<Rightarrow> Bridge" where
  "updEntry b cyl sd f =
     b\<lparr>m_mfmRead := (m_mfmRead b)(cyl := (m_mfmRead b cyl)(sd := f (m_mfmRead b cyl sd)))\<rparr>"

definition commitWriteBuffer ::
  "Bridge \<Rightarrow> DWORD \<Rightarrow> bool \<Rightarrow> 32 word \<Rightarrow> 32 word \<times> Bridge" where
  "commitWriteBuffer b now sideB track =
     (let b1 = switchDiskSide b now sideB;
          b2 = gotoCylinder b1 now (sint track) sideB;
          b3 = b2\<lparr>m_delayStreaming := True, m_delayStreamingStart := now\<rparr>;
          w = m_currentWriteTrack b3;
          b7 = (if floppyBufferSizeBits w \<noteq> 0 \<and> ucast (trackNumber w) = track
                   \<and> side w = boolSideToDiskSurface sideB
                then
                  let w1 = w\<lparr>writeFromIndex :=
                              (m_currentWriteStartMfmPosition b3 \<le> 10
                               \<or> m_currentWriteStartMfmPosition b3 \<ge> maxMFMBitPosition b3 - 10)\<rparr>;
                      b4 = b3\<lparr>m_currentWriteTrack := w1\<rparr>;
                      b5 = b4\<lparr>m_pendingTrackWrites := m_pendingTrackWrites b4 @ [w1]\<rparr>;
                      b6 = queueCommandI b5 writeMFMData 0
                  in updEntry b6 (uint track) (m_floppySide b6) invalidateEntry
                else b3);
          b8 = resetWriteBuffer b7
      in (word_of_int (maxMFMBitPosition b8), b8))"

section \<open>The worker thread\<close>

text \<open>A cache entry after \<^verbatim>\<open>memset(..., 0, ...)\<close> and the clearing of its fingerprint.\<close>

definition zeroSample :: MFMSample where
  "zeroSample = \<lparr>speed = (\<lambda>_. 0), mfmData = 0\<rparr>"

definition zeroCache :: MFMCache where
  "zeroCache = \<lparr>mfmBuffer = replicate ARD_MFM_BUFFER_MAX_TRACK_LENGTH zeroSample,
                 ready = False, amountReadInBits = 0\<rparr>"

definition zeroCaches :: MFMCaches where
  "zeroCaches = \<lparr>current = zeroCache, next_c = zeroCache, startBitPatterns = []\<rparr>"

definition resetMFMCache :: "Bridge \<Rightarrow> Bridge" where
  "resetMFMCache b =
     (let b1 = b\<lparr>m_mfmRead :=
                  (\<lambda>a c. if 0 \<le> a \<and> a < ARD_MAX_CYLINDER_BRIDGE then zeroCaches
                         else m_mfmRead b a c)\<rparr>;
          b2 = resetWriteBuffer b1
      in b2\<lparr>m_readBufferAvailable := False\<rparr>)"

definition internalSwitchCylinder :: "Bridge \<Rightarrow> int \<Rightarrow> DiskSurface \<Rightarrow> Bridge" where
  "internalSwitchCylinder b cylinder sd =
     (if ready (next_c (m_mfmRead b cylinder sd))
      then updEntry b cylinder sd
             (\<lambda>e. e\<lparr>current := next_c e,
                    next_c := (next_c e)\<lparr>amountReadInBits := 0, ready := False\<rparr>\<rparr>)
      else b)"

definition saveNextBuffer :: "Bridge \<Rightarrow> int \<Rightarrow> DiskSurface \<Rightarrow> Bridge" where
  "saveNextBuffer b cylinder sd =
     (let b1 = (if amountReadInBits (next_c (m_mfmRead b cylinder sd)) \<noteq> 0
                then updEntry b cylinder sd (\<lambda>e. e\<lparr>next_c := (next_c e)\<lparr>ready := True\<rparr>\<rparr>)
                else b)
      in if \<not> ready (next_c (m_mfmRead b1 cylinder sd)) then b1
         else if \<not> ready (current (m_mfmRead b1 cylinder sd)) then
           let b2 = internalSwitchCylinder b1 cylinder sd
           in if cylinder = m_currentTrack b2 \<and> sd = m_floppySide b2
              then b2\<lparr>m_readBufferAvailable := True\<rparr> else b2
         else b1)"

definition mfmSwitchBuffer :: "Bridge \<Rightarrow> DWORD \<Rightarrow> bool \<Rightarrow> Bridge" where
  "mfmSwitchBuffer b now sideB =
     (let b1 = switchDiskSide b now sideB
      in internalSwitchCylinder b1 (m_currentTrack b1) (m_floppySide b1))"

text \<open>
  \<^verbatim>\<open>memcpy(&buf[at], src, n * sizeof(MFMSample))\<close> on the sample array. The source
  copies inside the array: it calls with \<open>at + n \<le> length buf\<close>.
\<close>

definition memcpyAt :: "'a list \<Rightarrow> nat \<Rightarrow> 'a list \<Rightarrow> nat \<Rightarrow> 'a list" where
  "memcpyAt buf at src n = take at buf @ take n src @ drop (at + n) buf"

definition updNext ::
  "Bridge \<Rightarrow> int \<Rightarrow> DiskSurface \<Rightarrow> (MFMCache \<Rightarrow> MFMCache) \<Rightarrow> Bridge" where
  "updNext b cyl sd f = updEntry b cyl sd (\<lambda>e. e\<lparr>next_c := f (next_c e)\<rparr>)"

text \<open>
  The callback that \<^verbatim>\<open>handleBackgroundDiskRead\<close> hands to
  \<^verbatim>\<open>readCurrentTrackStream\<close>. It is called with a block of samples, its length in bits
  and the end-of-revolution flag; \<open>tp\<close> is the captured \<^verbatim>\<open>trackPositionInBytes\<close>.
  It returns whether the stream shall go on, the bridge and the new \<open>tp\<close>.
\<close>

definition streamCallback ::
  "Bridge \<Rightarrow> nat \<Rightarrow> MFMSample list \<times> nat \<times> bool \<Rightarrow> bool \<times> Bridge \<times> nat" where
  "streamCallback b tp chunk =
     (let mfmSamples = fst chunk;
          dataLengthInBits = fst (snd chunk);
          isEndOfRevolution = snd (snd chunk);
          cyl = m_actualCurrentCylinder b;
          sd = m_actualFloppySide b
      in if m_queue b \<noteq> [] then
           (False, updNext b cyl sd (\<lambda>c. c\<lparr>amountReadInBits := 0\<rparr>), tp)
         else
           let endPos = tp + dataLengthInBits div 8
           in if endPos \<ge> ARD_MFM_BUFFER_MAX_TRACK_LENGTH then
                let bytesRemaining = ARD_MFM_BUFFER_MAX_TRACK_LENGTH - tp;
                    b1 = (if bytesRemaining \<noteq> 0
                          then updNext b cyl sd
                                 (\<lambda>c. c\<lparr>mfmBuffer :=
                                          memcpyAt (mfmBuffer c) tp mfmSamples bytesRemaining\<rparr>)
                          else b);
                    b2 = updNext b1 cyl sd
                           (\<lambda>c. c\<lparr>amountReadInBits :=
                                    int (ARD_MFM_BUFFER_MAX_TRACK_LENGTH * 8)\<rparr>);
                    b3 = saveNextBuffer b2 cyl sd
                in (False, b3, tp)
              else
                let lengthInBytes =
                      dataLengthInBits div 8 + (if dataLengthInBits AND 7 \<noteq> 0 then 1 else 0);
                    b1 = updNext b cyl sd
                           (\<lambda>c. c\<lparr>mfmBuffer :=
                                    memcpyAt (mfmBuffer c) tp mfmSamples lengthInBytes\<rparr>);
                    b2 = updNext b1 cyl sd
                           (\<lambda>c. c\<lparr>amountReadInBits :=
                                    amountReadInBits c + int dataLengthInBits\<rparr>);
                    tp1 = tp + lengthInBytes
                in if isEndOfRevolution then
                     let b3 = saveNextBuffer b2 cyl sd
                     in if \<not> ready (next_c (m_mfmRead b3 cyl sd)) then (True, b3, 0)
                        else (False, b3, 0)
                   else (True, b2, tp1))"

text \<open>
  The device adapter is the list of the calls it makes to the callback, in order. The
  adapter of \<^verbatim>\<open>ArduinoInterface.cpp\<close> requests an abort when the callback returns false,
  and may still deliver blocks it holds; so the list is the calls really made, and the
  loop runs all of them.
\<close>

fun streamLoop :: "Bridge \<Rightarrow> nat \<Rightarrow> (MFMSample list \<times> nat \<times> bool) list \<Rightarrow> Bridge" where
  "streamLoop b tp [] = b"
| "streamLoop b tp (chunk # chunks) =
     (let r = streamCallback b tp chunk
      in streamLoop (fst (snd r)) (snd (snd r)) chunks)"

text \<open>
  \<open>noDisk\<close> says that \<^verbatim>\<open>readCurrentTrackStream\<close> returned \<^verbatim>\<open>drNoDiskInDrive\<close>.
\<close>

definition handleBackgroundDiskRead ::
  "Bridge \<Rightarrow> DWORD \<Rightarrow> (MFMSample list \<times> nat \<times> bool) list \<Rightarrow> bool \<Rightarrow> Bridge" where
  "handleBackgroundDiskRead b now calls noDisk =
     (let cyl = m_actualCurrentCylinder b;
          sd = m_actualFloppySide b
      in if \<not> isReady b then b
         else if ready (next_c (m_mfmRead b cyl sd)) then b
         else
           let b1 = updNext b cyl sd (\<lambda>c. c\<lparr>amountReadInBits := 0, ready := False\<rparr>);
               b2 = streamLoop b1 0 calls;
               b3 = (if noDisk then b2\<lparr>m_diskInDrive := False\<rparr> else b2);
               b4 = (if \<not> ready (next_c (m_mfmRead b3 cyl sd))
                     then updNext b3 cyl sd (\<lambda>c. c\<lparr>amountReadInBits := 0\<rparr>)
                     else b3)
           in b4\<lparr>m_lastDiskCheckTime := now\<rparr>)"

text \<open>
  The calls that \<^verbatim>\<open>processCommand\<close> and the disk poll of \<^verbatim>\<open>mainThread\<close> make to the
  drive through \<^verbatim>\<open>m_io\<close> (\<open>EnableReading\<close> keeps the first argument of
  \<^verbatim>\<open>enableReading\<close>). The worker runs while \<^verbatim>\<open>m_io\<close> is attached, so the test
  \<^verbatim>\<open>if (!m_io) return\<close> is passed. The members of the union are read as they were
  written: a seek is queued with the int, a side change with the bool.
\<close>

datatype TrackSearchSpeed = tssSlow | tssNormal | tssFast | tssVeryFast

datatype IoCall =
    EnableReading bool
  | SelectTrack int TrackSearchSpeed bool
  | SelectSurface DiskSurface
  | CheckForDisk bool
  | CheckIfDiskIsWriteProtected bool
  | WriteCurrentTrackPrecomp "byte list" nat bool bool

definition option_i :: "QueueInfo \<Rightarrow> int" where
  "option_i info = (case qoption info of OptI i \<Rightarrow> i | OptB v \<Rightarrow> (if v then 1 else 0))"

definition option_b :: "QueueInfo \<Rightarrow> bool" where
  "option_b info = (case qoption info of OptB v \<Rightarrow> v | OptI i \<Rightarrow> i mod 256 \<noteq> 0)"

definition DISKCHANGE_BEFORE_INSERTED_CHECK_INTERVAL :: DWORD where
  "DISKCHANGE_BEFORE_INSERTED_CHECK_INTERVAL = 2500"

definition DISKCHANGE_ONCE_INSERTED_CHECK_INTERVAL :: DWORD where
  "DISKCHANGE_ONCE_INSERTED_CHECK_INTERVAL = 500"

definition DISKCHANGE_BEFORE_INSERTED_CHECK_INTERVAL_NONMOD :: DWORD where
  "DISKCHANGE_BEFORE_INSERTED_CHECK_INTERVAL_NONMOD = 3000"

definition DISKCHANGE_ONCE_INSERTED_CHECK_INTERVAL_NONMOD :: DWORD where
  "DISKCHANGE_ONCE_INSERTED_CHECK_INTERVAL_NONMOD = 3000"

definition DISK_SPINUP_TIME :: DWORD where
  "DISK_SPINUP_TIME = 750"

text \<open>
  \<open>fullControlMod\<close> is the firmware flag of the device and \<open>wp\<close> says that the device
  answered \<^verbatim>\<open>drWriteProtected\<close>. The result is the bridge and the calls made to the drive.
\<close>

definition processCommand ::
  "Bridge \<Rightarrow> DWORD \<Rightarrow> bool \<Rightarrow> bool \<Rightarrow> QueueInfo \<Rightarrow> Bridge \<times> IoCall list" where
  "processCommand b now fullControlMod wp info =
     (case command info of
        qcMotorOn \<Rightarrow>
          (b\<lparr>m_motorSpinningUp := True, m_motorSpinningUpStart := now\<rparr>, [EnableReading True])
      | qcGotoToTrack \<Rightarrow>
          (let b1 = b\<lparr>m_lastDriveStepTime := now\<rparr>;
               ignore0 = (m_motorSpinningUp b1 \<and> \<not> m_motorIsReady b1);
               ignoreDiskCheck =
                 (if \<not> fullControlMod
                  then ignore0
                       \<or> ((now - m_lastDiskCheckTime b1
                              \<le> DISKCHANGE_ONCE_INSERTED_CHECK_INTERVAL_NONMOD
                            \<and> m_diskInDrive b1)
                          \<and> (now - m_lastDiskCheckTime b1
                                \<le> DISKCHANGE_BEFORE_INSERTED_CHECK_INTERVAL_NONMOD
                              \<and> \<not> m_diskInDrive b1))
                  else ignore0);
               b2 = (if \<not> ignoreDiskCheck then b1\<lparr>m_lastDiskCheckTime := now\<rparr> else b1)
           in (b2\<lparr>m_writeProtected := wp, m_actualCurrentCylinder := option_i info,
                   m_lastDriveStepTime := now\<rparr>,
               [SelectTrack (option_i info) tssNormal ignoreDiskCheck,
                CheckIfDiskIsWriteProtected False]))
      | qcMotorOff \<Rightarrow>
          (b\<lparr>m_motorSpinningUp := False, m_motorIsReady := False\<rparr>, [EnableReading False])
      | qcSelectDiskSide \<Rightarrow>
          (b\<lparr>m_lastDriveStepTime := now,
             m_actualFloppySide := boolSideToDiskSurface (option_b info)\<rparr>,
           [SelectSurface (boolSideToDiskSurface (option_b info))])
      | writeMFMData \<Rightarrow>
          (case m_pendingTrackWrites b of
             [] \<Rightarrow> (b, [])
           | track # rest \<Rightarrow>
               let b1 = b\<lparr>m_pendingTrackWrites := rest\<rparr>
               in if floppyBufferSizeBits track \<noteq> 0 then
                    let seek = (m_actualCurrentCylinder b1 \<noteq> uint (trackNumber track));
                        b2 = (if seek
                              then b1\<lparr>m_actualCurrentCylinder := uint (trackNumber track)\<rparr>
                              else b1);
                        flip = (m_actualFloppySide b2 \<noteq> side track);
                        b3 = (if flip then b2\<lparr>m_actualFloppySide := side track\<rparr> else b2);
                        usePrecomp = (m_actualCurrentCylinder b3 \<ge> WRITE_PRECOMP_START);
                        b4 = updEntry b3 (m_actualCurrentCylinder b3) (m_actualFloppySide b3)
                               (\<lambda>e. e\<lparr>current := (current e)\<lparr>ready := False\<rparr>\<rparr>)
                    in (b4\<lparr>m_lastDriveStepTime := now, m_delayStreaming := False\<rparr>,
                        (if seek then [SelectTrack (uint (trackNumber track)) tssFast False]
                         else [])
                        @ (if flip then [SelectSurface (side track)] else [])
                        @ [WriteCurrentTrackPrecomp (wbuffer track)
                             ((floppyBufferSizeBits track + 7) div 8)
                             (writeFromIndex track) usePrecomp])
                  else (b1, []))
      | qcTerminate \<Rightarrow> (b, []))"

text \<open>\<^verbatim>\<open>processQueue\<close> returns true when the thread shall quit.\<close>

definition processQueue ::
  "Bridge \<Rightarrow> DWORD \<Rightarrow> bool \<Rightarrow> bool \<Rightarrow> bool \<times> Bridge \<times> IoCall list" where
  "processQueue b now fullControlMod wp =
     (case m_queue b of
        [] \<Rightarrow> (False, b, [])
      | cmd # rest \<Rightarrow>
          let b1 = b\<lparr>m_queue := rest\<rparr>
          in if command cmd = qcTerminate then (True, b1, [])
             else (False, processCommand b1 now fullControlMod wp cmd))"

text \<open>
  The end of one round of \<^verbatim>\<open>mainThread\<close>: the spin-up timer, then the disk flag read
  from the device (\<open>ioDisk\<close> is \<^verbatim>\<open>m_io->isDiskInDrive()\<close>).
\<close>

definition spinUpStep :: "Bridge \<Rightarrow> DWORD \<Rightarrow> Bridge" where
  "spinUpStep b now =
     (if m_motorSpinningUp b \<and> now - m_motorSpinningUpStart b \<ge> DISK_SPINUP_TIME
      then b\<lparr>m_motorSpinningUp := False, m_motorIsReady := True, m_lastDriveStepTime := now\<rparr>
      else b)"

definition diskStateStep :: "Bridge \<Rightarrow> bool \<Rightarrow> Bridge" where
  "diskStateStep b ioDisk =
     (let lastDiskState = m_diskInDrive b;
          b1 = b\<lparr>m_diskInDrive := ioDisk\<rparr>
      in if lastDiskState \<noteq> m_diskInDrive b1
         then (if \<not> m_diskInDrive b1 then resetMFMCache b1 else b1)
         else b1)"

text \<open>
  One round of \<^verbatim>\<open>mainThread\<close>. \<open>signalled\<close> says that the wait on the queue semaphore
  returned \<^verbatim>\<open>WAIT_OBJECT_0\<close>; the other parameters are what the device answers in this
  round. The result says whether the thread returns.
\<close>

definition mainThreadRound ::
  "Bridge \<Rightarrow> DWORD \<Rightarrow> bool \<Rightarrow> bool \<Rightarrow> bool \<Rightarrow> (MFMSample list \<times> nat \<times> bool) list \<Rightarrow> bool
     \<Rightarrow> bool \<Rightarrow> bool \<times> Bridge \<times> IoCall list" where
  "mainThreadRound b now signalled fullControlMod wp calls noDisk ioDisk =
     (let r = (if signalled then processQueue b now fullControlMod wp
               else
                 let b1 = (if m_motorIsReady b
                              \<and> (\<not> m_delayStreaming b
                                 \<or> (m_delayStreaming b \<and> now - m_delayStreamingStart b > 100))
                           then handleBackgroundDiskRead b now calls noDisk else b);
                     since = now - m_lastDiskCheckTime b1;
                     readyForDiskCheck =
                       (if fullControlMod
                        then (since > DISKCHANGE_ONCE_INSERTED_CHECK_INTERVAL \<and> m_diskInDrive b1)
                             \<or> (since > DISKCHANGE_BEFORE_INSERTED_CHECK_INTERVAL
                                \<and> \<not> m_diskInDrive b1)
                        else (since > DISKCHANGE_ONCE_INSERTED_CHECK_INTERVAL_NONMOD
                                \<and> m_diskInDrive b1)
                             \<or> (since > DISKCHANGE_BEFORE_INSERTED_CHECK_INTERVAL_NONMOD
                                \<and> \<not> m_diskInDrive b1))
                 in if readyForDiskCheck \<and> length (m_queue b1) < 1
                    then (False, b1\<lparr>m_lastDiskCheckTime := now, m_writeProtected := wp\<rparr>,
                          [CheckForDisk True, CheckIfDiskIsWriteProtected False])
                    else (False, b1, []))
      in if fst r then r
         else (False, diskStateStep (spinUpStep (fst (snd r)) now) ioDisk, snd (snd r)))"

section \<open>The precompensation encoders\<close>

text \<open>
  \<^verbatim>\<open>readBit\<close> of both adapters: the next bit of the buffer, MSB first, and past the
  buffer's \<open>maxLength\<close> bytes an alternating padding. \<open>pos\<close> starts at 0 and only grows;
  the callers pass \<open>maxLength \<le> length buffer\<close>. The result is the bit and the new
  \<open>pos\<close> and \<open>bitp\<close> (the source's \<^verbatim>\<open>bit\<close>).
\<close>

definition readBit :: "byte list \<Rightarrow> nat \<Rightarrow> nat \<Rightarrow> int \<Rightarrow> int \<times> nat \<times> int" where
  "readBit buffer maxLength pos bitp =
     (if pos \<ge> maxLength then
        let bit1 = bitp - 1;
            pos2 = (if bit1 < 0 then pos + 1 else pos);
            bit2 = (if bit1 < 0 then 7 else bit1)
        in ((if bit2 AND 1 \<noteq> 0 then 0 else 1), pos2, bit2)
      else
        let ret = drop_bit (nat bitp) (uint (buffer ! pos)) AND 1;
            bit1 = bitp - 1;
            pos2 = (if bit1 < 0 then pos + 1 else pos);
            bit2 = (if bit1 < 0 then 7 else bit1)
        in (ret, pos2, bit2))"

text \<open>
  The inner \<^verbatim>\<open>do ... while\<close> of both encoders: read bits into the 7-bitp window
  \<open>sequence\<close> until its bit 3, the current cell, is a 1 (or the padding ends). The state
  is \<open>(pos, bitp, sequence, count)\<close>.
\<close>

definition runMeasure :: "nat \<Rightarrow> nat \<Rightarrow> int \<Rightarrow> nat" where
  "runMeasure numBytes pos bitp = 8 * (numBytes + 8 - pos) + nat bitp"

function readRun ::
  "byte list \<Rightarrow> nat \<Rightarrow> nat \<Rightarrow> int \<Rightarrow> byte \<Rightarrow> int \<Rightarrow> nat \<times> int \<times> byte \<times> int" where
  "readRun mfm numBytes pos bitp sequence count =
     (let r = readBit mfm numBytes pos bitp;
          sequence1 = (push_bit 1 sequence AND 0x7F) OR word_of_int (fst r);
          count1 = count + 1
      in if sequence1 AND 0x08 = 0 \<and> fst (snd r) < numBytes + 8
         then readRun mfm numBytes (fst (snd r)) (snd (snd r)) sequence1 count1
         else (fst (snd r), snd (snd r), sequence1, count1))"
  by pat_completeness auto
termination
  by (relation "measure (\<lambda>(mfm, numBytes, pos, bitp, sequence, count). runMeasure numBytes pos bitp)")
     (auto simp: readBit_def runMeasure_def Let_def split: if_splits)

declare readRun.simps [simp del]

definition clampCount :: "int \<Rightarrow> int" where
  "clampCount count =
     (let count1 = (if count < 2 then 2 else count)
      in if count1 > 5 then 5 else count1)"

definition PRECOMP_NONE :: int where "PRECOMP_NONE = 0x00"
definition PRECOMP_ERLY :: int where "PRECOMP_ERLY = 0x04"
definition PRECOMP_LATE :: int where "PRECOMP_LATE = 0x08"

text \<open>The \<^verbatim>\<open>switch (sequence)\<close> of \<^verbatim>\<open>ArduinoInterface::writeCurrentTrackPrecomp\<close>.\<close>

definition precompOf :: "bool \<Rightarrow> byte \<Rightarrow> int" where
  "precompOf usePrecomp sequence =
     (if usePrecomp then
        (if sequence = 0x09 \<or> sequence = 0x0A \<or> sequence = 0x4A then PRECOMP_ERLY
         else if sequence = 0x28 \<or> sequence = 0x29 \<or> sequence = 0x48 then PRECOMP_LATE
         else PRECOMP_NONE)
      else PRECOMP_NONE)"

text \<open>
  One pass of the \<^verbatim>\<open>for (i...)\<close> body of the packed encoder: the nibble it ORs into
  the output byte (before the shift by \<open>i * 4\<close>) and the new \<open>(pos, bitp, sequence,
  lastCount)\<close>.
\<close>

definition encodeNibble ::
  "byte list \<Rightarrow> nat \<Rightarrow> bool \<Rightarrow> nat \<times> int \<times> byte \<times> int \<Rightarrow> int \<times> nat \<times> int \<times> byte \<times> int" where
  "encodeNibble mfm numBytes usePrecomp st =
     (let r = readRun mfm numBytes (fst st) (fst (snd st)) (fst (snd (snd st))) 0;
          lastCount = snd (snd (snd st));
          count = clampCount (snd (snd (snd r)));
          precomp = precompOf usePrecomp (fst (snd (snd r)))
      in ((lastCount - 2) OR precomp, fst r, fst (snd r), fst (snd (snd r)), count))"

text \<open>
  The outer loop of \<^verbatim>\<open>ArduinoInterface::writeCurrentTrackPrecomp\<close>: two nibbles make
  one output byte. \<open>None\<close> is the error return when the output buffer of
  \<open>numBytes * 4 + 16\<close> bytes is full.
\<close>

function ardEncodeLoop ::
  "byte list \<Rightarrow> nat \<Rightarrow> bool \<Rightarrow> nat \<times> int \<times> byte \<times> int \<Rightarrow> nat \<Rightarrow> byte list
     \<Rightarrow> byte list option" where
  "ardEncodeLoop mfm numBytes usePrecomp st outputPos acc =
     (if fst st < numBytes + 8 then
        let n0 = encodeNibble mfm numBytes usePrecomp st;
            n1 = encodeNibble mfm numBytes usePrecomp (snd n0);
            out = (word_of_int (fst n0 OR push_bit 4 (fst n1)) :: byte);
            outputPos1 = outputPos + 1
        in if outputPos1 \<ge> numBytes * 4 + 16 then None
           else ardEncodeLoop mfm numBytes usePrecomp (snd n1) outputPos1 (acc @ [out])
      else Some acc)"
  by pat_completeness auto
termination
  by (relation "measure (\<lambda>(mfm, numBytes, usePrecomp, st, outputPos, acc).
                           numBytes * 4 + 16 - outputPos)") auto

declare ardEncodeLoop.simps [simp del]

text \<open>The packed stream handed to \<^verbatim>\<open>internalWriteTrack\<close>; the window starts as 0xAA.\<close>

definition ardPrecompStream :: "byte list \<Rightarrow> nat \<Rightarrow> bool \<Rightarrow> byte list option" where
  "ardPrecompStream mfm numBytes usePrecomp =
     ardEncodeLoop mfm numBytes usePrecomp (0, 7, 0xAA, 2) 0 []"

section \<open>The opcode flux protocol\<close>

text \<open>C++ division truncates towards zero, and a long long result stored in an int wraps.\<close>

definition cdiv :: "int \<Rightarrow> int \<Rightarrow> int" where
  "cdiv a b = (if (a < 0) = (b < 0) then \<bar>a\<bar> div \<bar>b\<bar> else - (\<bar>a\<bar> div \<bar>b\<bar>))"

definition to_int32 :: "int \<Rightarrow> int" where
  "to_int32 x = sint (word_of_int x :: 32 word)"

definition ONE_NANOSECOND :: int where
  "ONE_NANOSECOND = 1000000000"

definition BITCELL_SIZE_IN_NS :: int where
  "BITCELL_SIZE_IN_NS = 2000"

definition nSecToTicks :: "int \<Rightarrow> int \<Rightarrow> int" where
  "nSecToTicks nSec sampleFrequency = to_int32 (cdiv (nSec * sampleFrequency) ONE_NANOSECOND)"

definition ticksToNSec :: "int \<Rightarrow> int \<Rightarrow> int" where
  "ticksToNSec tickCount sampleFrequency =
     to_int32 (cdiv (tickCount * ONE_NANOSECOND) sampleFrequency)"

definition write28bit :: "int \<Rightarrow> byte list \<Rightarrow> byte list" where
  "write28bit v output =
     output @ [word_of_int (1 OR (push_bit 1 v AND 255)),
               word_of_int (1 OR (drop_bit 6 v AND 255)),
               word_of_int (1 OR (drop_bit 13 v AND 255)),
               word_of_int (1 OR (drop_bit 20 v AND 255))]"

text \<open>
  The encoding of one tick count in \<^verbatim>\<open>GreaseWeazleInterface::writeCurrentTrackPrecomp\<close>
  (the bytes it appends to the output). \<^verbatim>\<open>FluxOp::Space\<close> is 2. \<open>nfa_thresh\<close> is
  computed in floating point from the sample frequency and is a parameter here.
\<close>

definition gwEncodeTicks :: "int \<Rightarrow> int \<Rightarrow> byte list" where
  "gwEncodeTicks ticks nfa_thresh =
     (if ticks > 0 then
        (if ticks < 250 then [word_of_int ticks]
         else if ticks > nfa_thresh then [255, 2] @ write28bit ticks [] @ [255, 2]
         else
           let high = (ticks - 250) div 255
           in if high < 5
              then [word_of_int (250 + high), word_of_int (1 + (ticks - 250) mod 255)]
              else [255, 2] @ write28bit (ticks - 249) [] @ [249])
      else [])"

text \<open>
  One round of the \<^verbatim>\<open>while\<close> loop of that function: the bytes appended and the new
  \<open>(pos, bitp, sequence, extraTimeFromPrevious)\<close>.
\<close>

definition gwEncodeStep ::
  "byte list \<Rightarrow> nat \<Rightarrow> bool \<Rightarrow> int \<Rightarrow> int \<Rightarrow> nat \<times> int \<times> byte \<times> int
     \<Rightarrow> byte list \<times> nat \<times> int \<times> byte \<times> int" where
  "gwEncodeStep mfm numBytes usePrecomp sample_freq nfa_thresh st =
     (let r = readRun mfm numBytes (fst st) (fst (snd st)) (fst (snd (snd st))) 0;
          extraTimeFromPrevious = snd (snd (snd st));
          sequence = fst (snd (snd r));
          count = clampCount (snd (snd (snd r)));
          timeInNS = extraTimeFromPrevious + count * 2000;
          early = (sequence = 0x09 \<or> sequence = 0x0A \<or> sequence = 0x4A);
          late = (sequence = 0x28 \<or> sequence = 0x29 \<or> sequence = 0x48);
          timeInNS1 = (if usePrecomp then
                         (if early then timeInNS - 140
                          else if late then timeInNS + 140 else timeInNS)
                       else timeInNS);
          extra1 = (if usePrecomp then
                      (if early then 140 else if late then - 140 else 0)
                    else extraTimeFromPrevious);
          ticks = nSecToTicks timeInNS1 sample_freq
      in (gwEncodeTicks ticks nfa_thresh, fst r, fst (snd r), sequence, extra1))"

lemma readRun_progress:
  "pos < numBytes + 8 \<Longrightarrow>
   runMeasure numBytes (fst (readRun mfm numBytes pos bitp sequence count))
     (fst (snd (readRun mfm numBytes pos bitp sequence count)))
   < runMeasure numBytes pos bitp"
proof (induction mfm numBytes pos bitp sequence count rule: readRun.induct)
  case (1 mfm numBytes pos bitp sequence count)
  let ?r = "readBit mfm numBytes pos bitp"
  have step: "runMeasure numBytes (fst (snd ?r)) (snd (snd ?r)) < runMeasure numBytes pos bitp"
    using "1.prems" by (auto simp: readBit_def runMeasure_def Let_def)
  show ?case
  proof (cases "((push_bit 1 sequence AND 0x7F) OR word_of_int (fst ?r)) AND 0x08 = 0
                \<and> fst (snd ?r) < numBytes + 8")
    case True
    have "runMeasure numBytes
            (fst (readRun mfm numBytes (fst (snd ?r)) (snd (snd ?r))
                    ((push_bit 1 sequence AND 0x7F) OR word_of_int (fst ?r)) (count + 1)))
            (fst (snd (readRun mfm numBytes (fst (snd ?r)) (snd (snd ?r))
                    ((push_bit 1 sequence AND 0x7F) OR word_of_int (fst ?r)) (count + 1))))
          < runMeasure numBytes (fst (snd ?r)) (snd (snd ?r))"
      using True by (intro "1.IH") auto
    with step True show ?thesis
      by (subst (1 2) readRun.simps) (simp add: Let_def)
  next
    case False
    with step show ?thesis
      by (subst (1 2) readRun.simps) (auto simp: Let_def)
  qed
qed

function gwEncodeLoop ::
  "byte list \<Rightarrow> nat \<Rightarrow> bool \<Rightarrow> int \<Rightarrow> int \<Rightarrow> nat \<times> int \<times> byte \<times> int \<Rightarrow> byte list
     \<Rightarrow> byte list" where
  "gwEncodeLoop mfm numBytes usePrecomp sample_freq nfa_thresh st acc =
     (if fst st < numBytes + 1 then
        let r = gwEncodeStep mfm numBytes usePrecomp sample_freq nfa_thresh st
        in gwEncodeLoop mfm numBytes usePrecomp sample_freq nfa_thresh (snd r) (acc @ fst r)
      else acc @ [0])"
  by pat_completeness auto
termination
proof (relation "measure (\<lambda>(mfm, numBytes, usePrecomp, sample_freq, nfa_thresh, st, acc).
                            runMeasure numBytes (fst st) (fst (snd st)))", goal_cases)
  case 1
  show ?case by simp
next
  case (2 mfm numBytes usePrecomp sample_freq nfa_thresh st acc r)
  have "fst st < numBytes + 8" using 2 by simp
  from readRun_progress [OF this, of mfm "fst (snd st)" "fst (snd (snd st))" 0]
  show ?case using 2 by (simp add: gwEncodeStep_def Let_def)
qed

declare gwEncodeLoop.simps [simp del]

definition gwPrecompStream :: "byte list \<Rightarrow> nat \<Rightarrow> bool \<Rightarrow> int \<Rightarrow> int \<Rightarrow> byte list" where
  "gwPrecompStream mfm numBytes usePrecomp sample_freq nfa_thresh =
     gwEncodeLoop mfm numBytes usePrecomp sample_freq nfa_thresh (0, 7, 0xAA, 0) []"

section \<open>The ring-buffer queue of the adapters\<close>

text \<open>
  \<^verbatim>\<open>FastQueue\<close> and \<^verbatim>\<open>FastQueue2\<close> have the same text: a ring of \<open>QUEUE_SIZE\<close> slots.
  \<open>qsize\<close>, \<open>qpush\<close>, \<open>qnext\<close> are the source's \<^verbatim>\<open>size\<close>, \<^verbatim>\<open>push\<close>, \<^verbatim>\<open>next\<close>. A pop
  from an empty queue and a push into a full one do nothing, and \<^verbatim>\<open>front\<close> reads the
  slot at the read head whatever the size is.
\<close>

definition OVERLAP_WINDOW_SIZE :: nat where
  "OVERLAP_WINDOW_SIZE = 32"

definition QUEUE_SIZE :: nat where
  "QUEUE_SIZE = OVERLAP_WINDOW_SIZE * 4"

record 'a FastQueue =
  buffer :: "'a list"
  readHead :: nat
  writeHead :: nat
  bytes :: nat

definition front :: "'a FastQueue \<Rightarrow> 'a" where
  "front q = buffer q ! readHead q"

definition pop :: "'a FastQueue \<Rightarrow> 'a FastQueue" where
  "pop q =
     (if bytes q \<noteq> 0
      then q\<lparr>readHead := (readHead q + 1) mod QUEUE_SIZE, bytes := bytes q - 1\<rparr>
      else q)"

definition qnext :: "'a FastQueue \<Rightarrow> 'a \<times> 'a FastQueue" where
  "qnext q = (front q, pop q)"

definition qsize :: "'a FastQueue \<Rightarrow> nat" where
  "qsize q = bytes q"

definition qpush :: "'a FastQueue \<Rightarrow> 'a \<Rightarrow> 'a FastQueue" where
  "qpush q c =
     (if bytes q < QUEUE_SIZE
      then q\<lparr>buffer := (buffer q)[writeHead q := c],
             writeHead := (writeHead q + 1) mod QUEUE_SIZE, bytes := bytes q + 1\<rparr>
      else q)"

text \<open>A queue as the constructor leaves it, over the slots \<open>slots\<close>.\<close>

definition emptyQueue :: "'a list \<Rightarrow> 'a FastQueue" where
  "emptyQueue slots = \<lparr>buffer = slots, readHead = 0, writeHead = 0, bytes = 0\<rparr>"

text \<open>
  \<^verbatim>\<open>while (copy.size()) searchArea.push_back(copy.next())\<close>: the elements of a queue,
  front first.
\<close>

function drain :: "'a FastQueue \<Rightarrow> 'a list" where
  "drain q = (if qsize q \<noteq> 0 then front q # drain (pop q) else [])"
  by pat_completeness auto
termination
  by (relation "measure bytes") (auto simp: pop_def qsize_def)

declare drain.simps [simp del]

section \<open>The revolution aligner\<close>

text \<open>
  \<^verbatim>\<open>findSlidingWindow\<close> has the same text in both adapters but for the element type of
  the queues and the field it reads (\<^verbatim>\<open>mfm\<close> of an \<^verbatim>\<open>ArduinoPacket\<close>, \<^verbatim>\<open>sequence\<close> of a
  \<^verbatim>\<open>Sequence\<close>); the model is the one of \<^verbatim>\<open>ArduinoInterface.cpp\<close>.
\<close>

record ArduinoPacket =
  isIndex :: bool
  readSpeed :: byte
  mfm :: byte

text \<open>
  The inner loop over \<open>pos\<close>: the number of positions where the fingerprint equals the
  search area from \<open>startIndex\<close> on. The source adds the unsigned \<open>pos\<close> to the int
  \<open>startIndex\<close> in unsigned arithmetic: the sum is in range exactly when the int sum is.
\<close>

definition windowScore :: "byte list \<Rightarrow> byte list \<Rightarrow> int \<Rightarrow> int" where
  "windowScore searchSequence searchArea startIndex =
     int (length (filter
            (\<lambda>pos. 0 \<le> startIndex + int pos
                   \<and> startIndex + int pos < int (length searchArea)
                   \<and> searchSequence ! pos = searchArea ! nat (startIndex + int pos))
            [0..<length searchSequence]))"

text \<open>
  One candidate: the new \<open>(bestIndex, bestScore)\<close> and whether the search stops (a
  perfect score).
\<close>

definition tryCandidate ::
  "byte list \<Rightarrow> byte list \<Rightarrow> int \<times> int \<Rightarrow> int \<Rightarrow> (int \<times> int) \<times> bool" where
  "tryCandidate searchSequence searchArea best startIndex =
     (let score = windowScore searchSequence searchArea startIndex
      in if score > snd best
         then ((startIndex, score), score = int (length searchSequence))
         else (best, False))"

text \<open>The loop over \<open>a\<close>, with the two directions -1 and 1 in this order.\<close>

function fanOut ::
  "byte list \<Rightarrow> byte list \<Rightarrow> int \<Rightarrow> int \<Rightarrow> int \<times> int \<Rightarrow> int \<times> int" where
  "fanOut searchSequence searchArea midPoint a best =
     (if a \<le> midPoint then
        let r1 = tryCandidate searchSequence searchArea best (midPoint + (- 1) * a)
        in if snd r1 then fst r1
           else
             let r2 = tryCandidate searchSequence searchArea (fst r1) (midPoint + 1 * a)
             in if snd r2 then fst r2
                else fanOut searchSequence searchArea midPoint (a + 1) (fst r2)
      else best)"
  by pat_completeness auto
termination
  by (relation "measure (\<lambda>(searchSequence, searchArea, midPoint, a, best).
                           nat (midPoint + 1 - a))") auto

declare fanOut.simps [simp del]

text \<open>
  \<open>midPoint\<close> is computed in \<^verbatim>\<open>size_t\<close> and stored in an int; the subtraction wraps when
  the fingerprint is longer than the search area (written out for 32 bits).
\<close>

definition slidingSearch :: "byte list \<Rightarrow> byte list \<Rightarrow> int \<Rightarrow> int" where
  "slidingSearch searchSequence searchArea bestIndex0 =
     (let midPoint =
            int (((length searchArea + 2 ^ 32 - length searchSequence mod 2 ^ 32) mod 2 ^ 32) div 2)
      in fst (fanOut searchSequence searchArea midPoint 0 (bestIndex0, 0)))"

definition findSlidingWindow ::
  "byte list \<Rightarrow> ArduinoPacket FastQueue \<Rightarrow> ArduinoPacket FastQueue \<Rightarrow> int" where
  "findSlidingWindow searchSequence futureBitSequences currentBitSequences =
     (if qsize futureBitSequences < OVERLAP_WINDOW_SIZE then 0
      else if qsize currentBitSequences < OVERLAP_WINDOW_SIZE then 0
      else if length searchSequence < OVERLAP_WINDOW_SIZE then 0
      else
        let searchArea = map mfm (drain currentBitSequences) @ map mfm (drain futureBitSequences)
        in slidingSearch searchSequence searchArea (int (qsize currentBitSequences) - 1))"

section \<open>Decoding the flux stream\<close>

record Sequence =
  seq_sequence :: byte
  seq_speed :: "16 word"
  seq_atIndex :: bool

record PLLData =
  freq :: int
  ticks :: int

definition read_28bit :: "byte FastQueue \<Rightarrow> int \<times> byte FastQueue" where
  "read_28bit q =
     (let r0 = qnext q;
          x0 = drop_bit 1 (uint (fst r0));
          r1 = qnext (snd r0);
          x1 = x0 OR push_bit 6 (uint (fst r1) AND 0xfe);
          r2 = qnext (snd r1);
          x2 = x1 OR push_bit 13 (uint (fst r2) AND 0xfe);
          r3 = qnext (snd r2);
          x3 = x2 OR push_bit 20 (uint (fst r3) AND 0xfe)
      in (x3, snd r3))"

text \<open>
  The run-length part of \<^verbatim>\<open>unpackStreamQueue\<close> (the branch of a first byte other than
  255): the tick count \<^verbatim>\<open>val\<close> and the queue behind it, or \<open>None\<close> where the source
  returns 0 because the second byte has not arrived.
\<close>

definition fluxValue :: "byte FastQueue \<Rightarrow> (int \<times> byte FastQueue) option" where
  "fluxValue q =
     (let i = front q
      in if i < 250 then Some (uint i, pop q)
         else if qsize q \<ge> 2 then
           let q1 = pop q;
               val0 = 250 + (uint i - 250) * 255;
               r = qnext q1
           in Some (val0 + (uint (fst r) - 1), snd r)
         else None)"

text \<open>\<^verbatim>\<open>while (t > BITCELL_SIZE_IN_NS / 2) { output.sequence++; t -= BITCELL_SIZE_IN_NS; }\<close>\<close>

function clockOut :: "int \<Rightarrow> byte \<Rightarrow> byte" where
  "clockOut t sq = (if t > BITCELL_SIZE_IN_NS div 2 then clockOut (t - BITCELL_SIZE_IN_NS) (sq + 1) else sq)"
  by pat_completeness auto
termination
  by (relation "measure (\<lambda>(t, sq). nat t)") (auto simp: BITCELL_SIZE_IN_NS_def)

declare clockOut.simps [simp del]

text \<open>
  \<^verbatim>\<open>unpackStreamQueue\<close> returns 0 for nothing, 1 for data, 2 for an index, with the
  queue, the PLL data and the output it leaves. The opcodes are \<^verbatim>\<open>FluxOp::Index = 1\<close> and
  \<^verbatim>\<open>FluxOp::Space = 2\<close>. The source divides by \<open>freq\<close>, which the device reports and is
  not 0.
\<close>

definition unpackStreamQueue ::
  "byte FastQueue \<Rightarrow> PLLData \<Rightarrow> Sequence \<Rightarrow> int \<times> byte FastQueue \<times> PLLData \<times> Sequence" where
  "unpackStreamQueue q pllData output =
     (if qsize q < 1 then (0, q, pllData, output)
      else
        let i = front q
        in if i = 255 then
             (if qsize q < 6 then (0, q, pllData, output)
              else
                let q1 = pop q;
                    r = qnext q1
                in if fst r = 1 then (2, snd (read_28bit (snd r)), pllData, output)
                   else if fst r = 2 then
                     let v = read_28bit (snd r)
                     in (0, snd v, pllData\<lparr>ticks := ticks pllData + fst v\<rparr>, output)
                   else (0, snd r, pllData, output))
           else
             (case fluxValue q of
                None \<Rightarrow> (0, q, pllData, output)
              | Some vq \<Rightarrow>
                  let pll1 = pllData\<lparr>ticks := ticks pllData + fst vq\<rparr>;
                      tickInNS = ticksToNSec (ticks pll1) (freq pll1)
                  in if tickInNS > BITCELL_SIZE_IN_NS then
                       let s0 = clockOut (tickInNS - BITCELL_SIZE_IN_NS) 0;
                           s1 = (if s0 < 1 then 1 else s0);
                           s2 = s1 - 1;
                           sp = (word_of_int
                                   (cdiv (tickInNS * 100)
                                         ((uint s2 + 2) * BITCELL_SIZE_IN_NS)) :: 16 word)
                       in (1, snd vq, pll1\<lparr>ticks := 0\<rparr>,
                           output\<lparr>seq_sequence := s2, seq_speed := sp\<rparr>)
                     else (0, snd vq, pll1, output)))"

section \<open>Concrete states\<close>

text \<open>
  The bridge after the constructor, \<^verbatim>\<open>initialise()\<close> and \<^verbatim>\<open>resetDrive()\<close>, with the
  disk flag the device reported; the tick counts the source leaves unset are 0.
\<close>

definition initialBridge :: "bool \<Rightarrow> Bridge" where
  "initialBridge disk =
     \<lparr>m_pendingTrackWrites = [],
      m_currentWriteTrack =
        \<lparr>wbuffer = replicate ARD_MFM_BUFFER_MAX_TRACK_LENGTH 0, side = dsLower,
         trackNumber = 255, floppyBufferSizeBits = 0, writeFromIndex = False\<rparr>,
      m_currentWriteStartMfmPosition = 0,
      m_delayStreaming = False,
      m_delayStreamingStart = 0,
      m_mfmRead = (\<lambda>a c. zeroCaches),
      m_currentTrack = 0,
      m_actualCurrentCylinder = 0,
      m_writeProtected = True,
      m_diskInDrive = disk,
      m_motorSpinningUp = False,
      m_motorSpinningUpStart = 0,
      m_motorIsReady = False,
      m_isMotorRunning = False,
      m_lastDiskCheckTime = 0,
      m_lastDriveStepTime = 0,
      m_floppySide = dsLower,
      m_actualFloppySide = dsLower,
      m_queue = [],
      m_readBufferAvailable = False\<rparr>"

text \<open>The same bridge with the motor at speed (750 ms after \<^verbatim>\<open>qcMotorOn\<close>).\<close>

definition spinningBridge :: Bridge where
  "spinningBridge = (initialBridge True)\<lparr>m_isMotorRunning := True, m_motorIsReady := True\<rparr>"

text \<open>What the emulator thread observes while the worker changes nothing.\<close>

definition steady :: "Bridge \<Rightarrow> nat \<Rightarrow> MFMCaches" where
  "steady b a = activeCache b"

text \<open>
  A bridge that has cylinder 1, lower side, in its cache (a revolution of 100000 bits whose
  first bit is a 1 read at 120 percent) while the head is on cylinder 0, and the same
  bridge after the emulator steps to cylinder 1 at tick 1000.
\<close>

definition sampleOne :: MFMSample where
  "sampleOne = \<lparr>speed = (\<lambda>_. 120), mfmData = 0x80\<rparr>"

definition readyCache :: MFMCache where
  "readyCache = \<lparr>mfmBuffer = (replicate ARD_MFM_BUFFER_MAX_TRACK_LENGTH zeroSample)[0 := sampleOne],
                  ready = True, amountReadInBits = 100000\<rparr>"

definition cachedBridge :: Bridge where
  "cachedBridge =
     spinningBridge\<lparr>m_mfmRead :=
       (\<lambda>a c. if a = 1 \<and> c = dsLower then zeroCaches\<lparr>current := readyCache\<rparr> else zeroCaches)\<rparr>"

definition steppedBridge :: Bridge where
  "steppedBridge = gotoCylinder cachedBridge 1000 1 False"

section \<open>Definitions for the write buffer\<close>

text \<open>
  The invariant of the pending write buffer: its bit count is a multiple of 16 and at most
  \<open>ARD_MFM_BUFFER_MAX_TRACK_LENGTH * 8 - 16\<close>, and the array has its declared size.
\<close>

definition writeBufferInv :: "Bridge \<Rightarrow> bool" where
  "writeBufferInv b =
     (floppyBufferSizeBits (m_currentWriteTrack b) mod 16 = 0
      \<and> floppyBufferSizeBits (m_currentWriteTrack b) \<le> ARD_MFM_BUFFER_MAX_TRACK_LENGTH * 8 - 16
      \<and> length (wbuffer (m_currentWriteTrack b)) = ARD_MFM_BUFFER_MAX_TRACK_LENGTH)"

text \<open>A sequence of calls of \<open>writeShortToBuffer\<close>, each with its arguments.\<close>

fun writeShorts :: "Bridge \<Rightarrow> (DWORD \<times> bool \<times> 32 word \<times> 16 word \<times> int) list \<Rightarrow> Bridge" where
  "writeShorts b [] = b"
| "writeShorts b ((now, sideB, track, mfmData16, mfmPosition) # calls) =
     writeShorts (writeShortToBuffer b now sideB track mfmData16 mfmPosition) calls"

text \<open>
  The write track as \<open>writeShortToBuffer\<close> finds it after \<open>switchDiskSide\<close> and
  \<open>gotoCylinder\<close>: reset when the side or the track changes.
\<close>

definition switchedWrite :: "Bridge \<Rightarrow> bool \<Rightarrow> 32 word \<Rightarrow> TrackToWrite" where
  "switchedWrite b sideB track =
     (if boolSideToDiskSurface sideB = m_floppySide b \<and> m_currentTrack b = sint track
      then m_currentWriteTrack b
      else (m_currentWriteTrack b)\<lparr>writeFromIndex := False, floppyBufferSizeBits := 0,
                                    trackNumber := 255\<rparr>)"

text \<open>A bridge whose write buffer is full (114672 bits), on cylinder 0, lower side.\<close>

definition fullBridge :: Bridge where
  "fullBridge =
     (initialBridge True)\<lparr>m_currentWriteTrack :=
        \<lparr>wbuffer = replicate ARD_MFM_BUFFER_MAX_TRACK_LENGTH 0x55, side = dsLower,
         trackNumber = 0, floppyBufferSizeBits = ARD_MFM_BUFFER_MAX_TRACK_LENGTH * 8 - 16,
         writeFromIndex = False\<rparr>\<rparr>"

section \<open>Definitions for the command queue\<close>

text \<open>The queue item of a seek to cylinder \<open>c\<close>, and the test for a seek.\<close>

definition seekOf :: "int \<Rightarrow> QueueInfo" where
  "seekOf c = \<lparr>command = qcGotoToTrack, qoption = OptI c\<rparr>"

definition isSeek :: "QueueInfo \<Rightarrow> bool" where
  "isSeek x = (command x = qcGotoToTrack)"

text \<open>
  The bridge after one word written at bit position 97056 of cylinder 0, lower side, with
  no revolution cached: the write of 16 bits ends at 97072, the track's maximum bit
  position.
\<close>

definition lateWrite :: Bridge where
  "lateWrite = writeShortToBuffer (initialBridge True) 5 False 0 0x4489 97056"

section \<open>Definitions for the precompensation rules\<close>

text \<open>
  The windows of the two non-default cases of the \<^verbatim>\<open>switch\<close>, and a bridge with one
  pending write of 16 bits for the cylinder \<open>tn\<close>, with the queue item that flushes it.
\<close>

definition isEarly :: "byte \<Rightarrow> bool" where
  "isEarly w = (w = 0x09 \<or> w = 0x0A \<or> w = 0x4A)"

definition isLate :: "byte \<Rightarrow> bool" where
  "isLate w = (w = 0x28 \<or> w = 0x29 \<or> w = 0x48)"

definition pendingBridge :: "byte \<Rightarrow> Bridge" where
  "pendingBridge tn =
     (initialBridge True)\<lparr>m_pendingTrackWrites :=
        [\<lparr>wbuffer = replicate ARD_MFM_BUFFER_MAX_TRACK_LENGTH 0xAA, side = dsLower,
          trackNumber = tn, floppyBufferSizeBits = 16, writeFromIndex = False\<rparr>]\<rparr>"

definition writeCmd :: QueueInfo where
  "writeCmd = \<lparr>command = writeMFMData, qoption = OptI 0\<rparr>"

section \<open>Definitions for the queue contents\<close>

text \<open>
  An empty queue in good order (the heads agree and lie inside the ring, which has its
  declared size), the queue after pushing a list of elements, and a queue as the
  constructor leaves it over zeroed slots.
\<close>

definition wfEmpty :: "'a FastQueue \<Rightarrow> bool" where
  "wfEmpty q = (bytes q = 0 \<and> readHead q = writeHead q \<and> readHead q < QUEUE_SIZE
                \<and> length (buffer q) = QUEUE_SIZE)"

definition holding :: "'a FastQueue \<Rightarrow> 'a list \<Rightarrow> 'a FastQueue" where
  "holding q xs = foldl qpush q xs"

definition freshQueue :: "byte FastQueue" where
  "freshQueue = emptyQueue (replicate QUEUE_SIZE 0)"

section \<open>Definitions for the promotion of buffers\<close>

text \<open>
  What the promotion keeps of a cache entry: a ready buffer has a bit count other than 0.
\<close>

definition entryInv :: "MFMCaches \<Rightarrow> bool" where
  "entryInv e =
     ((ready (current e) \<longrightarrow> amountReadInBits (current e) \<noteq> 0)
      \<and> (ready (next_c e) \<longrightarrow> amountReadInBits (next_c e) \<noteq> 0))"

text \<open>
  A background read on the bridge with the motor at speed, in which the adapter delivers
  one block of 128 bits and then the end of the revolution; and the bridge with 128 bits
  in the next buffer of cylinder 0, lower side.
\<close>

definition shortRevolution :: Bridge where
  "shortRevolution =
     handleBackgroundDiskRead spinningBridge 2000
       [(replicate 16 sampleOne, 128, False), ([], 0, True)] False"

definition filledBridge :: Bridge where
  "filledBridge = updNext spinningBridge 0 dsLower (\<lambda>c. c\<lparr>amountReadInBits := 128\<rparr>)"

section \<open>Definitions for the sliding-window search\<close>

text \<open>
  The invariant of the fan-out loop when every candidate nearer to the midpoint than \<open>a\<close>
  has been scored by \<open>f\<close>: the best score bounds their scores; a best score above 0 is the
  score of the best index, which is the first candidate in the order of the scan that
  reaches it; a best score of 0 leaves the start value of the best index.
\<close>

definition fanInv :: "(int \<Rightarrow> int) \<Rightarrow> int \<Rightarrow> int \<Rightarrow> int \<Rightarrow> int \<times> int \<Rightarrow> bool" where
  "fanInv f midPoint bestIndex0 a best =
     (0 \<le> snd best
      \<and> (\<forall>c. \<bar>c - midPoint\<bar> < a \<longrightarrow> f c \<le> snd best)
      \<and> (0 < snd best \<longrightarrow>
            \<bar>fst best - midPoint\<bar> < a \<and> f (fst best) = snd best
            \<and> (\<forall>c. \<bar>c - midPoint\<bar> < \<bar>fst best - midPoint\<bar> \<longrightarrow> f c < snd best)
            \<and> (midPoint < fst best \<longrightarrow> f (2 * midPoint - fst best) < snd best))
      \<and> (snd best = 0 \<longrightarrow> fst best = bestIndex0))"

text \<open>
  The search area and the midpoint that \<open>findSlidingWindow\<close> computes from its two queues
  (for a fingerprint of \<open>OVERLAP_WINDOW_SIZE\<close> codes).
\<close>

definition searchAreaOf :: "ArduinoPacket FastQueue \<Rightarrow> ArduinoPacket FastQueue \<Rightarrow> byte list" where
  "searchAreaOf cur fut = map mfm (drain cur) @ map mfm (drain fut)"

definition midPointOf :: "ArduinoPacket FastQueue \<Rightarrow> ArduinoPacket FastQueue \<Rightarrow> int" where
  "midPointOf cur fut = (int (qsize cur + qsize fut) - int OVERLAP_WINDOW_SIZE) div 2"

text \<open>
  A packet with the run-length code \<open>m\<close>, a queue of 32 packets of code 2, and a
  fingerprint of 32 codes 1.
\<close>

definition packetOf :: "byte \<Rightarrow> ArduinoPacket" where
  "packetOf m = \<lparr>isIndex = False, readSpeed = 0, mfm = m\<rparr>"

definition twos :: "ArduinoPacket FastQueue" where
  "twos = holding (emptyQueue (replicate QUEUE_SIZE (packetOf 0))) (replicate 32 (packetOf 2))"

definition ones :: "byte list" where
  "ones = replicate 32 1"

section \<open>Facts about the concrete states\<close>

lemma spinningBridge_simps:
  "m_lastDriveStepTime spinningBridge = 0"
  "m_diskInDrive spinningBridge" "m_motorIsReady spinningBridge"
  "activeCache spinningBridge = zeroCaches"
  by (simp_all add: spinningBridge_def initialBridge_def activeCache_def)

lemma zeroCaches_simps:
  "ready (current zeroCaches) = False" "ready (next_c zeroCaches) = False"
  "amountReadInBits (current zeroCaches) = 0" "amountReadInBits (next_c zeroCaches) = 0"
  "length (mfmBuffer (current zeroCaches)) = ARD_MFM_BUFFER_MAX_TRACK_LENGTH"
  "length (mfmBuffer (next_c zeroCaches)) = ARD_MFM_BUFFER_MAX_TRACK_LENGTH"
  by (simp_all add: zeroCaches_def zeroCache_def)

lemma steppedBridge_simps:
  "m_lastDriveStepTime steppedBridge = 1000"
  "m_diskInDrive steppedBridge" "m_motorIsReady steppedBridge"
  "activeCache steppedBridge = zeroCaches\<lparr>current := readyCache\<rparr>"
  by (simp_all add: steppedBridge_def gotoCylinder_def cachedBridge_def spinningBridge_def
        initialBridge_def resetWriteBuffer_def switchDiskSide_def boolSideToDiskSurface_def
        resetEventUnlessReady_def activeCache_def queueCommandI_def pushOntoQueue_def Let_def
        readyCache_def)

section \<open>The read interface: garbage window and speed\<close>

lemma clampSpeed_range: "700 \<le> clampSpeed x \<and> clampSpeed x \<le> 3000"
  by (simp add: clampSpeed_def Let_def)

lemma speedOf_range: "speedOf c i j = Inr v \<Longrightarrow> 700 \<le> v \<and> v \<le> 3000"
  using clampSpeed_range by (auto simp: speedOf_def split: sum.splits)

lemma speedOf_total:
  "0 \<le> i \<Longrightarrow> nat i < length (mfmBuffer c) \<Longrightarrow> \<exists>v. speedOf c i j = Inr v"
  by (simp add: speedOf_def sampleAt_def)

text \<open>
  Claim C1, as the code has it. Inside the garbage window (less than 500 ms on the tick
  counter since the last step or side change) \<open>getMFMBit\<close> returns 0 and \<open>getMFMSpeed\<close>
  returns 1000 at every position when the current buffer of the active cache entry is not
  ready. When the disk is in, the motor is ready and the current buffer is ready, both
  answer from the current buffer, whatever the clock says: the ready test comes before the
  garbage-window test.
\<close>

theorem garbage_window_not_ready:
  "(now - m_lastDriveStepTime b < DRIVE_STEP_GARBAGE_TIME
      \<and> \<not> ready (current (activeCache b))
    \<longrightarrow> getMFMBit b obs now pos = Inr False \<and> getMFMSpeed b now pos = Inr 1000)
   \<and> (m_diskInDrive b \<and> m_motorIsReady b \<and> ready (current (activeCache b))
    \<longrightarrow> getMFMBit b obs now pos
          = bitOf (current (activeCache b)) (drop_bit 3 pos) (7 - (pos AND 7))
        \<and> getMFMSpeed b now pos
          = speedOf (current (activeCache b)) (drop_bit 3 pos) (7 - (pos AND 7)))"
  by (simp add: getMFMBit_def getMFMSpeed_def Let_def)

theorem garbage_window_witness:
  "(499 - m_lastDriveStepTime spinningBridge < DRIVE_STEP_GARBAGE_TIME)
   \<and> \<not> ready (current (activeCache spinningBridge))
   \<and> getMFMBit spinningBridge (steady spinningBridge) 499 0 = Inr False
   \<and> getMFMSpeed spinningBridge 499 0 = Inr 1000
   \<and> m_diskInDrive steppedBridge \<and> m_motorIsReady steppedBridge
   \<and> ready (current (activeCache steppedBridge))
   \<and> getMFMBit steppedBridge (steady steppedBridge) 1001 8 = Inr False"
  using garbage_window_not_ready [of 499 spinningBridge "steady spinningBridge" 0]
        garbage_window_not_ready [of 1001 steppedBridge "steady steppedBridge" 8]
  by (simp add: steppedBridge_simps spinningBridge_simps zeroCaches_simps
        DRIVE_STEP_GARBAGE_TIME_def readyCache_def bitOf_def
        sampleAt_def zeroSample_def ARD_MFM_BUFFER_MAX_TRACK_LENGTH_def)

text \<open>
  Claim C1 as stated fails: 1 ms after a step to a cylinder whose current buffer is ready,
  \<open>getMFMBit\<close> returns the cached 1 bit and \<open>getMFMSpeed\<close> the cached speed 1200.
\<close>

theorem garbage_window_counterexample:
  "1001 - m_lastDriveStepTime steppedBridge < DRIVE_STEP_GARBAGE_TIME
   \<and> ready (current (activeCache steppedBridge))
   \<and> getMFMBit steppedBridge (steady steppedBridge) 1001 0 = Inr True
   \<and> getMFMSpeed steppedBridge 1001 0 = Inr 1200"
  by (simp add: steppedBridge_simps getMFMBit_def getMFMSpeed_def DRIVE_STEP_GARBAGE_TIME_def
        readyCache_def bitOf_def speedOf_def sampleAt_def sampleOne_def clampSpeed_def
        ARD_MFM_BUFFER_MAX_TRACK_LENGTH_def)

text \<open>
  Claim C2. Whatever \<open>getMFMSpeed\<close> returns lies between 700 and 3000; with the motor not
  ready or no disk in the drive it returns 1000; and it does return a value at every
  position inside the sample arrays of the active cache entry (outside them the source
  reads past the array).
\<close>

theorem speed_clamping:
  "(getMFMSpeed b now pos = Inr v \<longrightarrow> 700 \<le> v \<and> v \<le> 3000)
   \<and> (\<not> m_motorIsReady b \<or> \<not> m_diskInDrive b \<longrightarrow> getMFMSpeed b now pos = Inr 1000)
   \<and> (0 \<le> pos \<and> pos < 8 * int (length (mfmBuffer (current (activeCache b))))
        \<and> pos < 8 * int (length (mfmBuffer (next_c (activeCache b))))
      \<longrightarrow> (\<exists>w. getMFMSpeed b now pos = Inr w))"
proof (intro conjI impI)
  assume "getMFMSpeed b now pos = Inr v"
  then show "700 \<le> v" "v \<le> 3000"
    by (auto simp: getMFMSpeed_def Let_def split: if_splits dest: speedOf_range)
next
  assume "\<not> m_motorIsReady b \<or> \<not> m_diskInDrive b"
  then show "getMFMSpeed b now pos = Inr 1000"
    by (auto simp: getMFMSpeed_def)
next
  assume a: "0 \<le> pos \<and> pos < 8 * int (length (mfmBuffer (current (activeCache b))))
        \<and> pos < 8 * int (length (mfmBuffer (next_c (activeCache b))))"
  have d: "drop_bit 3 pos = pos div 8" by (simp add: drop_bit_eq_div)
  have "0 \<le> drop_bit 3 pos" using a by (simp add: d div_int_pos_iff)
  moreover have "nat (drop_bit 3 pos) < length (mfmBuffer (current (activeCache b)))"
    using a unfolding d by linarith
  moreover have "nat (drop_bit 3 pos) < length (mfmBuffer (next_c (activeCache b)))"
    using a unfolding d by linarith
  ultimately show "\<exists>w. getMFMSpeed b now pos = Inr w"
    using speedOf_total by (simp add: getMFMSpeed_def Let_def)
qed

theorem speed_clamping_witness:
  "getMFMSpeed steppedBridge 1001 0 = Inr 1200 \<and> 700 \<le> (1200::int) \<and> (1200::int) \<le> 3000
   \<and> \<not> m_diskInDrive (initialBridge False)
   \<and> getMFMSpeed (initialBridge False) 7 5 = Inr 1000
   \<and> (\<exists>w. getMFMSpeed steppedBridge 1001 9 = Inr w)"
  using speed_clamping [of steppedBridge 1001 0 1200]
        speed_clamping [of "initialBridge False" 7 5 1000]
        speed_clamping [of steppedBridge 1001 9 1200]
  by (simp add: steppedBridge_simps getMFMSpeed_def readyCache_def speedOf_def sampleAt_def
        sampleOne_def clampSpeed_def ARD_MFM_BUFFER_MAX_TRACK_LENGTH_def initialBridge_def)

section \<open>Disk removal\<close>

text \<open>
  Claim C9, evaluated on the code. The worker sees the disk flag of the device go from
  present to absent; then \<open>isDiskInDrive\<close> is false, and \<open>hasDiskChanged\<close> answers true,
  leaves the bridge as it is, and answers true again: it has no status to reset.
\<close>

theorem hasDiskChanged_repeats:
  "isDiskInDrive (diskStateStep (initialBridge True) False) = False
   \<and> fst (hasDiskChanged (diskStateStep (initialBridge True) False)) = True
   \<and> snd (hasDiskChanged (diskStateStep (initialBridge True) False))
       = diskStateStep (initialBridge True) False
   \<and> fst (hasDiskChanged (snd (hasDiskChanged (diskStateStep (initialBridge True) False))))
       = True"
  by (simp add: hasDiskChanged_def isDiskInDrive_def diskStateStep_def initialBridge_def
        resetMFMCache_def resetWriteBuffer_def Let_def)

section \<open>The write buffer\<close>

lemma resetWriteBuffer_write:
  "m_currentWriteTrack (resetWriteBuffer b)
     = (m_currentWriteTrack b)\<lparr>writeFromIndex := False, floppyBufferSizeBits := 0,
                               trackNumber := 255\<rparr>"
  "m_currentWriteStartMfmPosition (resetWriteBuffer b) = 0"
  by (simp_all add: resetWriteBuffer_def)

lemma switchDiskSide_write:
  "m_currentWriteTrack (switchDiskSide b now sideB)
     = (if boolSideToDiskSurface sideB \<noteq> m_floppySide b
        then m_currentWriteTrack (resetWriteBuffer b) else m_currentWriteTrack b)"
  "m_currentWriteStartMfmPosition (switchDiskSide b now sideB)
     = (if boolSideToDiskSurface sideB \<noteq> m_floppySide b
        then 0 else m_currentWriteStartMfmPosition b)"
  by (simp_all add: switchDiskSide_def Let_def queueCommandB_def pushOntoQueue_def
        resetEventUnlessReady_def resetWriteBuffer_def)

lemma switchDiskSide_track:
  "m_currentTrack (switchDiskSide b now sideB) = m_currentTrack b"
  "m_floppySide (switchDiskSide b now sideB) = boolSideToDiskSurface sideB"
  by (simp_all add: switchDiskSide_def Let_def queueCommandB_def pushOntoQueue_def
        resetEventUnlessReady_def resetWriteBuffer_def)

lemma gotoCylinder_write:
  "m_currentWriteTrack (gotoCylinder b now trackNo sideB)
     = (if m_currentTrack b = trackNo then m_currentWriteTrack b
        else m_currentWriteTrack (resetWriteBuffer b))"
  "m_currentWriteStartMfmPosition (gotoCylinder b now trackNo sideB)
     = (if m_currentTrack b = trackNo then m_currentWriteStartMfmPosition b else 0)"
  by (simp_all add: gotoCylinder_def Let_def queueCommandI_def pushOntoQueue_def
        resetEventUnlessReady_def switchDiskSide_write resetWriteBuffer_write)

lemma writeShort_switched:
  "m_currentWriteTrack
     (gotoCylinder (switchDiskSide b now sideB) now (sint track) sideB)
   = switchedWrite b sideB track"
  by (simp add: gotoCylinder_write switchDiskSide_write switchDiskSide_track
        resetWriteBuffer_write switchedWrite_def)

lemma writeShort_write:
  "m_currentWriteTrack (writeShortToBuffer b now sideB track mfmData16 mfmPosition)
   = (let w = switchedWrite b sideB track
      in if floppyBufferSizeBits w < ARD_MFM_BUFFER_MAX_TRACK_LENGTH * 8 - 16
         then w\<lparr>trackNumber := (if floppyBufferSizeBits w = 0 then ucast track else trackNumber w),
                side := (if floppyBufferSizeBits w = 0 then boolSideToDiskSurface sideB else side w),
                wbuffer := (wbuffer w)[drop_bit 3 (floppyBufferSizeBits w) := ucast (drop_bit 8 mfmData16),
                                      drop_bit 3 (floppyBufferSizeBits w) + 1 := ucast (mfmData16 AND 0xFF)],
                floppyBufferSizeBits := floppyBufferSizeBits w + 16\<rparr>
         else w)"
  unfolding writeShortToBuffer_def Let_def
  by (simp add: writeShort_switched)

lemma writeShort_inv:
  assumes "writeBufferInv b"
  shows "writeBufferInv (writeShortToBuffer b now sideB track mfmData16 mfmPosition)"
proof -
  have "floppyBufferSizeBits (switchedWrite b sideB track) mod 16 = 0"
       "floppyBufferSizeBits (switchedWrite b sideB track) \<le> ARD_MFM_BUFFER_MAX_TRACK_LENGTH * 8 - 16"
       "length (wbuffer (switchedWrite b sideB track)) = ARD_MFM_BUFFER_MAX_TRACK_LENGTH"
    using assms by (simp_all add: writeBufferInv_def switchedWrite_def)
  then show ?thesis
    unfolding writeBufferInv_def writeShort_write Let_def
    by (auto simp: ARD_MFM_BUFFER_MAX_TRACK_LENGTH_def)
qed

lemma writeShorts_inv:
  "writeBufferInv b \<Longrightarrow> writeBufferInv (writeShorts b calls)"
proof (induction calls arbitrary: b)
  case Nil
  then show ?case by simp
next
  case (Cons c calls)
  obtain now sideB track d pos where c: "c = (now, sideB, track, d, pos)"
    by (cases c) auto
  show ?case
    unfolding c writeShorts.simps
    by (rule Cons.IH) (rule writeShort_inv [OF Cons.prems])
qed

text \<open>
  Claim C10. From a write buffer that satisfies the invariant (as every reset leaves it),
  every sequence of calls of \<open>writeShortToBuffer\<close> keeps the bit count a multiple of 16 and
  at most \<open>ARD_MFM_BUFFER_MAX_TRACK_LENGTH * 8 - 16\<close>. A call for the side and track the
  bridge is on, with the buffer full, leaves the write track (bytes and bit count) as it
  was. A call that changes the write track stores the high byte at index \<open>i\<close> and the low
  byte at \<open>i + 1\<close>, both inside the array of \<open>ARD_MFM_BUFFER_MAX_TRACK_LENGTH\<close> bytes,
  where \<open>8 * i\<close> was the bit count, and changes no other byte.
\<close>

theorem writeShort_buffer_bounded:
  "writeBufferInv b \<longrightarrow>
     writeBufferInv (writeShorts b calls)
     \<and> (boolSideToDiskSurface sideB = m_floppySide b \<and> m_currentTrack b = sint track
          \<and> floppyBufferSizeBits (m_currentWriteTrack b) = ARD_MFM_BUFFER_MAX_TRACK_LENGTH * 8 - 16
        \<longrightarrow> m_currentWriteTrack (writeShortToBuffer b now sideB track d pos)
             = m_currentWriteTrack b)
     \<and> (m_currentWriteTrack (writeShortToBuffer b now sideB track d pos) \<noteq> m_currentWriteTrack b
        \<longrightarrow> (\<exists>i. i + 1 < ARD_MFM_BUFFER_MAX_TRACK_LENGTH
               \<and> length (wbuffer (m_currentWriteTrack (writeShortToBuffer b now sideB track d pos)))
                   = ARD_MFM_BUFFER_MAX_TRACK_LENGTH
               \<and> floppyBufferSizeBits (m_currentWriteTrack (writeShortToBuffer b now sideB track d pos))
                   = 8 * i + 16
               \<and> wbuffer (m_currentWriteTrack (writeShortToBuffer b now sideB track d pos)) ! i
                   = ucast (drop_bit 8 d)
               \<and> wbuffer (m_currentWriteTrack (writeShortToBuffer b now sideB track d pos)) ! (i + 1)
                   = ucast (d AND 0xFF)
               \<and> (\<forall>j. j \<noteq> i \<and> j \<noteq> i + 1 \<longrightarrow>
                     wbuffer (m_currentWriteTrack (writeShortToBuffer b now sideB track d pos)) ! j
                       = wbuffer (m_currentWriteTrack b) ! j)))"
proof (intro impI conjI)
  assume inv: "writeBufferInv b"
  show "writeBufferInv (writeShorts b calls)"
    by (rule writeShorts_inv [OF inv])
next
  assume "boolSideToDiskSurface sideB = m_floppySide b \<and> m_currentTrack b = sint track
          \<and> floppyBufferSizeBits (m_currentWriteTrack b) = ARD_MFM_BUFFER_MAX_TRACK_LENGTH * 8 - 16"
  then show "m_currentWriteTrack (writeShortToBuffer b now sideB track d pos) = m_currentWriteTrack b"
    by (simp add: writeShort_write switchedWrite_def)
next
  let ?w = "switchedWrite b sideB track"
  let ?w' = "m_currentWriteTrack (writeShortToBuffer b now sideB track d pos)"
  assume inv: "writeBufferInv b" and changed: "?w' \<noteq> m_currentWriteTrack b"
  have w: "floppyBufferSizeBits ?w mod 16 = 0"
          "floppyBufferSizeBits ?w \<le> ARD_MFM_BUFFER_MAX_TRACK_LENGTH * 8 - 16"
          "length (wbuffer ?w) = ARD_MFM_BUFFER_MAX_TRACK_LENGTH"
          "wbuffer ?w = wbuffer (m_currentWriteTrack b)"
    using inv by (simp_all add: writeBufferInv_def switchedWrite_def)
  have stored: "floppyBufferSizeBits ?w < ARD_MFM_BUFFER_MAX_TRACK_LENGTH * 8 - 16"
  proof (rule ccontr)
    assume "\<not> floppyBufferSizeBits ?w < ARD_MFM_BUFFER_MAX_TRACK_LENGTH * 8 - 16"
    then have full: "floppyBufferSizeBits ?w = ARD_MFM_BUFFER_MAX_TRACK_LENGTH * 8 - 16"
      using w(2) by simp
    then have "?w = m_currentWriteTrack b"
      by (auto simp: switchedWrite_def ARD_MFM_BUFFER_MAX_TRACK_LENGTH_def split: if_splits)
    with full have "?w' = m_currentWriteTrack b"
      by (simp add: writeShort_write)
    with changed show False by simp
  qed
  define i where "i = drop_bit 3 (floppyBufferSizeBits ?w)"
  have i8: "floppyBufferSizeBits ?w = 8 * i"
    using w(1) unfolding i_def drop_bit_eq_div by (simp add: mod_eq_0_iff_dvd) presburger
  have ib: "i + 1 < ARD_MFM_BUFFER_MAX_TRACK_LENGTH"
    using stored i8 by (simp add: ARD_MFM_BUFFER_MAX_TRACK_LENGTH_def)
  have w': "?w' = ?w\<lparr>trackNumber := (if floppyBufferSizeBits ?w = 0 then ucast track else trackNumber ?w),
                side := (if floppyBufferSizeBits ?w = 0 then boolSideToDiskSurface sideB else side ?w),
                wbuffer := (wbuffer ?w)[i := ucast (drop_bit 8 d), i + 1 := ucast (d AND 0xFF)],
                floppyBufferSizeBits := floppyBufferSizeBits ?w + 16\<rparr>"
    using stored by (simp add: writeShort_write Let_def i_def)
  show "\<exists>i. i + 1 < ARD_MFM_BUFFER_MAX_TRACK_LENGTH
          \<and> length (wbuffer ?w') = ARD_MFM_BUFFER_MAX_TRACK_LENGTH
          \<and> floppyBufferSizeBits ?w' = 8 * i + 16
          \<and> wbuffer ?w' ! i = ucast (drop_bit 8 d)
          \<and> wbuffer ?w' ! (i + 1) = ucast (d AND 0xFF)
          \<and> (\<forall>j. j \<noteq> i \<and> j \<noteq> i + 1 \<longrightarrow> wbuffer ?w' ! j = wbuffer (m_currentWriteTrack b) ! j)"
    apply (rule exI [of _ i])
    unfolding w'
    using ib w(3) i8 w(4)
    by (simp add: nth_list_update)
qed

lemma initialBridge_write:
  "m_currentWriteTrack (initialBridge disk)
     = \<lparr>wbuffer = replicate ARD_MFM_BUFFER_MAX_TRACK_LENGTH 0, side = dsLower,
        trackNumber = 255, floppyBufferSizeBits = 0, writeFromIndex = False\<rparr>"
  "m_floppySide (initialBridge disk) = dsLower" "m_currentTrack (initialBridge disk) = 0"
  by (simp_all add: initialBridge_def)

lemma fullBridge_write:
  "m_currentWriteTrack fullBridge
     = \<lparr>wbuffer = replicate ARD_MFM_BUFFER_MAX_TRACK_LENGTH 0x55, side = dsLower,
        trackNumber = 0, floppyBufferSizeBits = ARD_MFM_BUFFER_MAX_TRACK_LENGTH * 8 - 16,
        writeFromIndex = False\<rparr>"
  "m_floppySide fullBridge = dsLower" "m_currentTrack fullBridge = 0"
  by (simp_all add: fullBridge_def initialBridge_def)

theorem writeShort_buffer_bounded_witness:
  "writeBufferInv (initialBridge True)
   \<and> writeBufferInv (writeShorts (initialBridge True) [(5, False, 0, 0x4489, 0), (6, False, 0, 0x2AAA, 16)])
   \<and> writeBufferInv fullBridge
   \<and> floppyBufferSizeBits (m_currentWriteTrack fullBridge) = ARD_MFM_BUFFER_MAX_TRACK_LENGTH * 8 - 16
   \<and> m_currentWriteTrack (writeShortToBuffer fullBridge 5 False 0 0x4489 114672)
       = m_currentWriteTrack fullBridge
   \<and> m_currentWriteTrack (writeShortToBuffer (initialBridge True) 5 False 0 0x4489 0)
       \<noteq> m_currentWriteTrack (initialBridge True)
   \<and> (\<exists>i. i + 1 < ARD_MFM_BUFFER_MAX_TRACK_LENGTH
        \<and> wbuffer (m_currentWriteTrack (writeShortToBuffer (initialBridge True) 5 False 0 0x4489 0)) ! i
            = 0x44
        \<and> wbuffer (m_currentWriteTrack (writeShortToBuffer (initialBridge True) 5 False 0 0x4489 0)) ! (i + 1)
            = 0x89)"
proof -
  have i0: "writeBufferInv (initialBridge True)"
    by (simp add: writeBufferInv_def initialBridge_write ARD_MFM_BUFFER_MAX_TRACK_LENGTH_def)
  have f0: "writeBufferInv fullBridge"
    by (simp add: writeBufferInv_def fullBridge_write ARD_MFM_BUFFER_MAX_TRACK_LENGTH_def)
  have ne: "m_currentWriteTrack (writeShortToBuffer (initialBridge True) 5 False 0 0x4489 0)
       \<noteq> m_currentWriteTrack (initialBridge True)"
    by (simp add: writeShort_write switchedWrite_def initialBridge_write boolSideToDiskSurface_def
          ARD_MFM_BUFFER_MAX_TRACK_LENGTH_def Let_def)
  have hi: "(ucast (drop_bit 8 (0x4489 :: 16 word)) :: byte) = 0x44"
           "(ucast ((0x4489 :: 16 word) AND 0xFF) :: byte) = 0x89"
    by simp_all
  from writeShort_buffer_bounded
         [of "initialBridge True" "[(5, False, 0, 0x4489, 0), (6, False, 0, 0x2AAA, 16)]"
             False 0 5 "0x4489" 0]
       writeShort_buffer_bounded [of fullBridge "[]" False 0 5 "0x4489" 114672]
       i0 f0 ne
  show ?thesis
    unfolding hi
    by (simp add: fullBridge_write boolSideToDiskSurface_def) blast
qed

section \<open>Seek coalescing\<close>

lemma switchDiskSide_queue:
  "m_queue (switchDiskSide b now sideB)
     = (if boolSideToDiskSurface sideB \<noteq> m_floppySide b
        then m_queue b @ [\<lparr>command = qcSelectDiskSide, qoption = OptB sideB\<rparr>]
        else m_queue b)"
  by (simp add: switchDiskSide_def Let_def queueCommandB_def pushOntoQueue_def
        resetEventUnlessReady_def resetWriteBuffer_def)

lemma gotoCylinder_queue:
  "m_queue (gotoCylinder b now trackNo sideB)
     = (if m_currentTrack b = trackNo then m_queue b
        else if boolSideToDiskSurface sideB \<noteq> m_floppySide b
        then m_queue b @ [\<lparr>command = qcSelectDiskSide, qoption = OptB sideB\<rparr>, seekOf trackNo]
        else if m_queue b \<noteq> [] \<and> command (last (m_queue b)) = qcGotoToTrack
        then butlast (m_queue b) @ [(last (m_queue b))\<lparr>qoption := OptI trackNo\<rparr>]
        else m_queue b @ [seekOf trackNo])"
  by (simp add: gotoCylinder_def Let_def queueCommandI_def pushOntoQueue_def seekOf_def
        resetEventUnlessReady_def switchDiskSide_queue resetWriteBuffer_def)

lemma gotoCylinder_track:
  "m_currentTrack (gotoCylinder b now trackNo sideB) = trackNo"
  "m_floppySide (gotoCylinder b now trackNo sideB)
     = (if m_currentTrack b = trackNo then m_floppySide b else boolSideToDiskSurface sideB)"
  by (simp_all add: gotoCylinder_def Let_def queueCommandI_def pushOntoQueue_def
        resetEventUnlessReady_def switchDiskSide_track resetWriteBuffer_def)

text \<open>
  Claim C6. When \<open>gotoCylinder\<close> is called for another cylinder on the side the bridge is
  on and the back of the queue is a seek, the back element gets the new cylinder in place
  and the queue keeps its length. So three calls for the cylinders 5, 9 and 12 (on one
  side) on an empty queue leave exactly one seek in the queue, for cylinder 12, at its
  back.
\<close>

theorem seek_coalescing:
  "(m_currentTrack b \<noteq> t \<and> boolSideToDiskSurface sideB = m_floppySide b
      \<and> m_queue b = q @ [x] \<and> command x = qcGotoToTrack
    \<longrightarrow> m_queue (gotoCylinder b now t sideB) = q @ [x\<lparr>qoption := OptI t\<rparr>])
   \<and> (m_queue b = []
    \<longrightarrow> filter isSeek
          (m_queue (gotoCylinder (gotoCylinder (gotoCylinder b n1 5 sideB) n2 9 sideB) n3 12 sideB))
          = [seekOf 12]
        \<and> last (m_queue (gotoCylinder (gotoCylinder (gotoCylinder b n1 5 sideB) n2 9 sideB) n3 12 sideB))
          = seekOf 12)"
proof (intro conjI impI)
  assume "m_currentTrack b \<noteq> t \<and> boolSideToDiskSurface sideB = m_floppySide b
      \<and> m_queue b = q @ [x] \<and> command x = qcGotoToTrack"
  then show "m_queue (gotoCylinder b now t sideB) = q @ [x\<lparr>qoption := OptI t\<rparr>]"
    by (simp add: gotoCylinder_queue)
next
  assume e: "m_queue b = []"
  show "filter isSeek
          (m_queue (gotoCylinder (gotoCylinder (gotoCylinder b n1 5 sideB) n2 9 sideB) n3 12 sideB))
          = [seekOf 12]"
    by (simp add: gotoCylinder_queue gotoCylinder_track e isSeek_def seekOf_def)
  show "last (m_queue (gotoCylinder (gotoCylinder (gotoCylinder b n1 5 sideB) n2 9 sideB) n3 12 sideB))
          = seekOf 12"
    by (simp add: gotoCylinder_queue gotoCylinder_track e isSeek_def seekOf_def)
qed

theorem seek_coalescing_witness:
  "m_currentTrack ((initialBridge True)\<lparr>m_queue := [seekOf 5]\<rparr>) \<noteq> 9
   \<and> m_queue (gotoCylinder ((initialBridge True)\<lparr>m_queue := [seekOf 5]\<rparr>) 7 9 False) = [seekOf 9]
   \<and> m_queue (initialBridge True) = []
   \<and> m_queue (gotoCylinder (gotoCylinder (gotoCylinder (initialBridge True) 1 5 False) 2 9 False) 3 12 False)
       = [seekOf 12]"
  using seek_coalescing [of "(initialBridge True)\<lparr>m_queue := [seekOf 5]\<rparr>" 9 False "[]" "seekOf 5" 7]
        seek_coalescing [of "initialBridge True" 9 False "[]" "seekOf 5" 7 1 2 3]
  by (simp add: initialBridge_def boolSideToDiskSurface_def seekOf_def gotoCylinder_queue
        gotoCylinder_track isSeek_def)

section \<open>Committing a write\<close>

lemma maxMFMBitPosition_cong:
  "m_mfmRead b' = m_mfmRead b \<Longrightarrow> m_currentTrack b' = m_currentTrack b
   \<Longrightarrow> m_floppySide b' = m_floppySide b \<Longrightarrow> maxMFMBitPosition b' = maxMFMBitPosition b"
  by (simp add: maxMFMBitPosition_def activeCache_def)

lemma switchDiskSide_cache: "m_mfmRead (switchDiskSide b now sideB) = m_mfmRead b"
  by (simp add: switchDiskSide_def Let_def queueCommandB_def pushOntoQueue_def
        resetEventUnlessReady_def resetWriteBuffer_def)

lemma gotoCylinder_cache: "m_mfmRead (gotoCylinder b now trackNo sideB) = m_mfmRead b"
  by (simp add: gotoCylinder_def Let_def queueCommandI_def pushOntoQueue_def
        resetEventUnlessReady_def resetWriteBuffer_def switchDiskSide_cache)

lemma switchDiskSide_pending:
  "m_pendingTrackWrites (switchDiskSide b now sideB) = m_pendingTrackWrites b"
  by (simp add: switchDiskSide_def Let_def queueCommandB_def pushOntoQueue_def
        resetEventUnlessReady_def resetWriteBuffer_def)

lemma gotoCylinder_pending:
  "m_pendingTrackWrites (gotoCylinder b now trackNo sideB) = m_pendingTrackWrites b"
  by (simp add: gotoCylinder_def Let_def queueCommandI_def pushOntoQueue_def
        resetEventUnlessReady_def resetWriteBuffer_def switchDiskSide_pending)

lemma switched_noop:
  "boolSideToDiskSurface sideB = m_floppySide b \<Longrightarrow> m_currentTrack b = trackNo
   \<Longrightarrow> gotoCylinder (switchDiskSide b now sideB) now trackNo sideB = b"
  by (simp add: gotoCylinder_def switchDiskSide_def)

text \<open>
  Claim C7, as the code has it. \<open>commitWriteBuffer\<close> pushes the write buffer exactly when
  the call is for the side and track the bridge is on and the buffer holds bits for that
  track and side. The pushed write has \<open>writeFromIndex\<close> true iff the position where the
  write began is at most 10, or at least the track's maximum bit position minus 10: both
  tests are on the start of the write, none on its end.
\<close>

theorem writeFromIndex_rule:
  "m_pendingTrackWrites (snd (commitWriteBuffer b now sideB track))
   = (if boolSideToDiskSurface sideB = m_floppySide b \<and> m_currentTrack b = sint track
         \<and> floppyBufferSizeBits (m_currentWriteTrack b) \<noteq> 0
         \<and> ucast (trackNumber (m_currentWriteTrack b)) = track
         \<and> side (m_currentWriteTrack b) = boolSideToDiskSurface sideB
      then m_pendingTrackWrites b
           @ [(m_currentWriteTrack b)\<lparr>writeFromIndex :=
                (m_currentWriteStartMfmPosition b \<le> 10
                 \<or> m_currentWriteStartMfmPosition b \<ge> maxMFMBitPosition b - 10)\<rparr>]
      else m_pendingTrackWrites b)"
proof (cases "boolSideToDiskSurface sideB = m_floppySide b \<and> m_currentTrack b = sint track")
  case True
  then have sw: "gotoCylinder (switchDiskSide b now sideB) now (sint track) sideB = b"
    by (simp add: switched_noop)
  have mx: "maxMFMBitPosition (b\<lparr>m_delayStreaming := True, m_delayStreamingStart := now\<rparr>)
              = maxMFMBitPosition b"
    by (rule maxMFMBitPosition_cong) simp_all
  show ?thesis
    using True unfolding commitWriteBuffer_def sw Let_def
    by (simp add: mx resetWriteBuffer_def queueCommandI_def pushOntoQueue_def updEntry_def)
next
  case False
  have "floppyBufferSizeBits (m_currentWriteTrack
          (gotoCylinder (switchDiskSide b now sideB) now (sint track) sideB)) = 0"
    using False
    by (auto simp: gotoCylinder_write switchDiskSide_write switchDiskSide_track
          resetWriteBuffer_write)
  then show ?thesis
    using False unfolding commitWriteBuffer_def Let_def
    by (auto simp: resetWriteBuffer_def gotoCylinder_pending switchDiskSide_pending)
qed

theorem writeFromIndex_rule_witness:
  "m_pendingTrackWrites (snd (commitWriteBuffer fullBridge 9 False 0))
   = [(m_currentWriteTrack fullBridge)\<lparr>writeFromIndex := True\<rparr>]"
  using writeFromIndex_rule [of fullBridge 9 False 0]
  by (simp add: fullBridge_write boolSideToDiskSurface_def fullBridge_def initialBridge_def
        ARD_MFM_BUFFER_MAX_TRACK_LENGTH_def)

lemma lateWrite_simps:
  "m_floppySide lateWrite = dsLower" "m_currentTrack lateWrite = 0"
  "m_currentWriteStartMfmPosition lateWrite = 97056"
  "m_pendingTrackWrites lateWrite = []"
  "floppyBufferSizeBits (m_currentWriteTrack lateWrite) = 16"
  "trackNumber (m_currentWriteTrack lateWrite) = 0"
  "side (m_currentWriteTrack lateWrite) = dsLower"
  "maxMFMBitPosition lateWrite = 97072"
  by (simp_all add: lateWrite_def writeShortToBuffer_def Let_def switched_noop
        initialBridge_def boolSideToDiskSurface_def ARD_MFM_BUFFER_MAX_TRACK_LENGTH_def
        maxMFMBitPosition_def activeCache_def zeroCaches_def zeroCache_def
        THEORETICAL_MINIMUM_TRACK_LENGTH_def)

text \<open>
  Claim C7 as stated fails: a write of 16 bits that began at 97056 ends at the maximum bit
  position 97072, and the pending write has \<open>writeFromIndex\<close> false.
\<close>

theorem writeFromIndex_counterexample:
  "m_currentWriteStartMfmPosition lateWrite
     + int (floppyBufferSizeBits (m_currentWriteTrack lateWrite)) = maxMFMBitPosition lateWrite
   \<and> map writeFromIndex (m_pendingTrackWrites (snd (commitWriteBuffer lateWrite 6 False 0)))
       = [False]"
proof -
  have "map writeFromIndex (m_pendingTrackWrites (snd (commitWriteBuffer lateWrite 6 False 0)))
       = [False]"
    unfolding commitWriteBuffer_def Let_def
    by (simp add: switched_noop lateWrite_simps boolSideToDiskSurface_def
          maxMFMBitPosition_cong [of _ lateWrite] resetWriteBuffer_def queueCommandI_def
          pushOntoQueue_def updEntry_def)
  then show ?thesis by (simp add: lateWrite_simps)
qed

section \<open>The precompensation rule table\<close>

lemma processCommand_write:
  assumes "command info = writeMFMData" "m_pendingTrackWrites b = track # rest"
    "floppyBufferSizeBits track \<noteq> 0"
  shows "last (snd (processCommand b now fullControlMod wp info))
         = WriteCurrentTrackPrecomp (wbuffer track) ((floppyBufferSizeBits track + 7) div 8)
             (writeFromIndex track) (uint (trackNumber track) \<ge> WRITE_PRECOMP_START)"
  using assms by (simp add: processCommand_def Let_def)

text \<open>
  Claim C4. With precompensation on, the packed encoder sets the Early bits exactly for
  the windows 0x09, 0x0A and 0x4A, the Late bits exactly for 0x28, 0x29 and 0x48, and none
  for every other window; with precompensation off it sets none for any window. Each
  nibble of the packed stream is the previous gap minus 2 ORed with that value for the
  window the run ends with. The run-length encoder shifts by 140 ns for the same windows
  (shorter for Early, longer for Late, and the opposite carried to the next interval).
  The worker writes a track with precompensation on exactly when its cylinder is at
  least 40.
\<close>

theorem precomp_rule_table:
  "(precompOf True w = PRECOMP_ERLY \<longleftrightarrow> w = 0x09 \<or> w = 0x0A \<or> w = 0x4A)
   \<and> (precompOf True w = PRECOMP_LATE \<longleftrightarrow> w = 0x28 \<or> w = 0x29 \<or> w = 0x48)
   \<and> (precompOf True w = PRECOMP_NONE \<longleftrightarrow> \<not> isEarly w \<and> \<not> isLate w)
   \<and> precompOf False w = PRECOMP_NONE
   \<and> fst (encodeNibble mfmBytes numBytes usePrecomp st)
       = (snd (snd (snd st)) - 2)
         OR precompOf usePrecomp (fst (snd (snd (snd (encodeNibble mfmBytes numBytes usePrecomp st)))))
   \<and> snd (snd (snd (snd (gwEncodeStep mfmBytes numBytes usePrecomp sample_freq nfa_thresh st))))
       = (if usePrecomp
          then (if isEarly (fst (snd (snd (snd (gwEncodeStep mfmBytes numBytes usePrecomp sample_freq nfa_thresh st)))))
                then 140
                else if isLate (fst (snd (snd (snd (gwEncodeStep mfmBytes numBytes usePrecomp sample_freq nfa_thresh st)))))
                then - 140 else 0)
          else snd (snd (snd st)))
   \<and> fst (gwEncodeStep mfmBytes numBytes usePrecomp sample_freq nfa_thresh st)
       = gwEncodeTicks
           (nSecToTicks
              (snd (snd (snd st))
               + clampCount (snd (snd (snd (readRun mfmBytes numBytes (fst st) (fst (snd st))
                                              (fst (snd (snd st))) 0)))) * 2000
               + (if usePrecomp
                  then (if isEarly (fst (snd (snd (snd (gwEncodeStep mfmBytes numBytes usePrecomp sample_freq nfa_thresh st)))))
                        then - 140
                        else if isLate (fst (snd (snd (snd (gwEncodeStep mfmBytes numBytes usePrecomp sample_freq nfa_thresh st)))))
                        then 140 else 0)
                  else 0))
              sample_freq)
           nfa_thresh
   \<and> (command info = writeMFMData \<and> m_pendingTrackWrites b = track # rest
        \<and> floppyBufferSizeBits track \<noteq> 0
      \<longrightarrow> (\<exists>buf n fromIndex.
             last (snd (processCommand b now fullControlMod wp info))
             = WriteCurrentTrackPrecomp buf n fromIndex (uint (trackNumber track) \<ge> 40)))"
proof (intro conjI impI)
  show "precompOf True w = PRECOMP_ERLY \<longleftrightarrow> w = 0x09 \<or> w = 0x0A \<or> w = 0x4A"
    by (simp add: precompOf_def PRECOMP_ERLY_def PRECOMP_LATE_def PRECOMP_NONE_def)
  show "precompOf True w = PRECOMP_LATE \<longleftrightarrow> w = 0x28 \<or> w = 0x29 \<or> w = 0x48"
    by (simp add: precompOf_def PRECOMP_ERLY_def PRECOMP_LATE_def PRECOMP_NONE_def)
  show "precompOf True w = PRECOMP_NONE \<longleftrightarrow> \<not> isEarly w \<and> \<not> isLate w"
    by (simp add: precompOf_def PRECOMP_ERLY_def PRECOMP_LATE_def PRECOMP_NONE_def
          isEarly_def isLate_def)
  show "precompOf False w = PRECOMP_NONE"
    by (simp add: precompOf_def)
  show "fst (encodeNibble mfmBytes numBytes usePrecomp st)
       = (snd (snd (snd st)) - 2)
         OR precompOf usePrecomp (fst (snd (snd (snd (encodeNibble mfmBytes numBytes usePrecomp st)))))"
    by (simp add: encodeNibble_def Let_def)
  show "snd (snd (snd (snd (gwEncodeStep mfmBytes numBytes usePrecomp sample_freq nfa_thresh st))))
       = (if usePrecomp
          then (if isEarly (fst (snd (snd (snd (gwEncodeStep mfmBytes numBytes usePrecomp sample_freq nfa_thresh st)))))
                then 140
                else if isLate (fst (snd (snd (snd (gwEncodeStep mfmBytes numBytes usePrecomp sample_freq nfa_thresh st)))))
                then - 140 else 0)
          else snd (snd (snd st)))"
    by (simp add: gwEncodeStep_def Let_def isEarly_def isLate_def)
  show "fst (gwEncodeStep mfmBytes numBytes usePrecomp sample_freq nfa_thresh st)
       = gwEncodeTicks
           (nSecToTicks
              (snd (snd (snd st))
               + clampCount (snd (snd (snd (readRun mfmBytes numBytes (fst st) (fst (snd st))
                                              (fst (snd (snd st))) 0)))) * 2000
               + (if usePrecomp
                  then (if isEarly (fst (snd (snd (snd (gwEncodeStep mfmBytes numBytes usePrecomp sample_freq nfa_thresh st)))))
                        then - 140
                        else if isLate (fst (snd (snd (snd (gwEncodeStep mfmBytes numBytes usePrecomp sample_freq nfa_thresh st)))))
                        then 140 else 0)
                  else 0))
              sample_freq)
           nfa_thresh"
    by (simp add: gwEncodeStep_def Let_def isEarly_def isLate_def)
next
  assume "command info = writeMFMData \<and> m_pendingTrackWrites b = track # rest
        \<and> floppyBufferSizeBits track \<noteq> 0"
  then show "\<exists>buf n fromIndex.
             last (snd (processCommand b now fullControlMod wp info))
             = WriteCurrentTrackPrecomp buf n fromIndex (uint (trackNumber track) \<ge> 40)"
    using processCommand_write [of info b track rest now fullControlMod wp]
    by (auto simp: WRITE_PRECOMP_START_def)
qed

theorem precomp_rule_table_witness:
  "precompOf True 0x09 = PRECOMP_ERLY \<and> precompOf True 0x48 = PRECOMP_LATE
   \<and> precompOf True 0x49 = PRECOMP_NONE
   \<and> command writeCmd = writeMFMData
   \<and> (\<exists>buf n fromIndex.
         last (snd (processCommand (pendingBridge 39) 7 True False writeCmd))
         = WriteCurrentTrackPrecomp buf n fromIndex False)
   \<and> (\<exists>buf n fromIndex.
         last (snd (processCommand (pendingBridge 40) 7 True False writeCmd))
         = WriteCurrentTrackPrecomp buf n fromIndex True)"
  using precomp_rule_table [of "0x09" "[]" 0 True "(0, 7, 0xAA, 2)" 1 1 writeCmd "pendingBridge 39"
          "hd (m_pendingTrackWrites (pendingBridge 39))" "[]" 7 True False]
        precomp_rule_table [of "0x48" "[]" 0 True "(0, 7, 0xAA, 2)" 1 1 writeCmd "pendingBridge 40"
          "hd (m_pendingTrackWrites (pendingBridge 40))" "[]" 7 True False]
        precomp_rule_table [of "0x49"]
  by (simp add: writeCmd_def pendingBridge_def isEarly_def isLate_def)

section \<open>The run-length flux code\<close>

lemma ring_distinct:
  fixes r :: nat
  assumes "r < 128"
  shows "Suc r mod 128 \<noteq> r" "Suc (Suc r) mod 128 \<noteq> r" "Suc (Suc (Suc r)) mod 128 \<noteq> r"
        "Suc (Suc r) mod 128 \<noteq> Suc r mod 128" "Suc (Suc (Suc r)) mod 128 \<noteq> Suc r mod 128"
        "Suc (Suc (Suc r)) mod 128 \<noteq> Suc (Suc r) mod 128"
        "Suc r mod 128 < 128" "Suc (Suc r) mod 128 < 128" "Suc (Suc (Suc r)) mod 128 < 128"
  using assms by (auto simp: mod_Suc)

lemma qpush_wf:
  "bytes q < 128 \<Longrightarrow>
   qpush q c = q\<lparr>buffer := (buffer q)[writeHead q := c],
                 writeHead := Suc (writeHead q) mod 128, bytes := Suc (bytes q)\<rparr>"
  by (simp add: qpush_def QUEUE_SIZE_def OVERLAP_WINDOW_SIZE_def)

lemma pop_wf:
  "bytes q \<noteq> 0 \<Longrightarrow>
   pop q = q\<lparr>readHead := Suc (readHead q) mod 128, bytes := bytes q - 1\<rparr>"
  by (simp add: pop_def QUEUE_SIZE_def OVERLAP_WINDOW_SIZE_def)

lemma holding_two_eq:
  assumes "wfEmpty q"
  shows "holding q [a, b]
         = q\<lparr>buffer := (buffer q)[readHead q := a, Suc (readHead q) mod 128 := b],
             writeHead := Suc (Suc (readHead q)) mod 128, bytes := Suc (Suc 0)\<rparr>"
  using assms by (simp add: holding_def qpush_wf wfEmpty_def mod_Suc_eq)


lemma holding_two:
  assumes "wfEmpty q"
  shows "front (holding q [a, b]) = a"
        "qsize (holding q [a, b]) = 2"
        "front (pop (holding q [a, b])) = b"
        "wfEmpty (pop (pop (holding q [a, b])))"
proof -
  have r: "readHead q < 128" "length (buffer q) = 128"
    using assms by (simp_all add: wfEmpty_def QUEUE_SIZE_def OVERLAP_WINDOW_SIZE_def)
  note d = ring_distinct [OF r(1)]
  show "front (holding q [a, b]) = a"
    unfolding holding_two_eq [OF assms] using r d by (simp add: front_def)
  show "qsize (holding q [a, b]) = 2"
    unfolding holding_two_eq [OF assms] by (simp add: qsize_def)
  show "front (pop (holding q [a, b])) = b"
    unfolding holding_two_eq [OF assms] using r d by (simp add: front_def pop_wf)
  show "wfEmpty (pop (pop (holding q [a, b])))"
    unfolding holding_two_eq [OF assms] using r d
    by (simp add: pop_wf wfEmpty_def QUEUE_SIZE_def OVERLAP_WINDOW_SIZE_def mod_Suc_eq)
qed

lemma holding_four_eq:
  assumes "wfEmpty q"
  shows "holding q [a, b, c, d]
         = q\<lparr>buffer := (buffer q)[readHead q := a, Suc (readHead q) mod 128 := b,
                                   Suc (Suc (readHead q)) mod 128 := c,
                                   Suc (Suc (Suc (readHead q))) mod 128 := d],
             writeHead := Suc (Suc (Suc (Suc (readHead q)))) mod 128,
             bytes := Suc (Suc (Suc (Suc 0)))\<rparr>"
  using assms by (simp add: holding_def qpush_wf wfEmpty_def mod_Suc_eq)

lemma holding_four:
  assumes "wfEmpty q"
  shows "fst (read_28bit (holding q [a, b, c, d]))
         = drop_bit 1 (uint a) OR push_bit 6 (uint b AND 0xfe)
              OR push_bit 13 (uint c AND 0xfe) OR push_bit 20 (uint d AND 0xfe)"
        "wfEmpty (snd (read_28bit (holding q [a, b, c, d])))"
proof -
  have r: "readHead q < 128" "length (buffer q) = 128"
    using assms by (simp_all add: wfEmpty_def QUEUE_SIZE_def OVERLAP_WINDOW_SIZE_def)
  note d = ring_distinct [OF r(1)]
  show "fst (read_28bit (holding q [a, b, c, d]))
         = drop_bit 1 (uint a) OR push_bit 6 (uint b AND 0xfe)
              OR push_bit 13 (uint c AND 0xfe) OR push_bit 20 (uint d AND 0xfe)"
    unfolding holding_four_eq [OF assms] read_28bit_def qnext_def Let_def fst_conv snd_conv
    using r d by (simp add: front_def pop_wf mod_Suc_eq or.assoc)
  show "wfEmpty (snd (read_28bit (holding q [a, b, c, d])))"
    unfolding holding_four_eq [OF assms] read_28bit_def qnext_def Let_def fst_conv snd_conv
    using r d
    by (simp add: pop_wf wfEmpty_def QUEUE_SIZE_def OVERLAP_WINDOW_SIZE_def mod_Suc_eq)
qed


lemma bit_double_Suc: "bit (x * 2 :: int) (Suc n) = bit x n"
  by (simp add: bit_Suc)

lemma bit_mask7_double: "bit (mask 7 * 2 :: int) k = (0 < k \<and> k < 8)"
  by (cases k) (auto simp: bit_Suc bit_mask_iff bit_0)

lemma bit28:
  fixes v :: int
  assumes "0 \<le> v" "v < 2 ^ 28"
  shows "drop_bit 1 (uint (word_of_int (1 OR (push_bit 1 v AND 255)) :: byte))
           OR push_bit 6 (uint (word_of_int (1 OR (drop_bit 6 v AND 255)) :: byte) AND 0xfe)
           OR push_bit 13 (uint (word_of_int (1 OR (drop_bit 13 v AND 255)) :: byte) AND 0xfe)
           OR push_bit 20 (uint (word_of_int (1 OR (drop_bit 20 v AND 255)) :: byte) AND 0xfe)
         = v"
proof -
  have m255: "(255::int) = mask 8" by (simp add: mask_eq_exp_minus_1)
  have m254: "(254::int) = push_bit 1 (mask 7)" by (simp add: mask_eq_exp_minus_1 push_bit_eq_mult)
  have tb: "take_bit 28 v = v" using assms by (simp add: take_bit_int_eq_self)
  have hi: "bit v n \<Longrightarrow> n < 28" for n
    using tb by (metis bit_take_bit_iff)
  show ?thesis
    unfolding m255 m254
  proof (rule bit_eqI)
    fix n :: nat
    consider "n < 7" | "7 \<le> n" "n < 14" | "14 \<le> n" "n < 21" | "21 \<le> n" "n < 28" | "28 \<le> n"
      by linarith
    then show "bit (drop_bit 1 (uint (word_of_int (1 OR (push_bit 1 v AND mask 8)) :: byte))
           OR push_bit 6 (uint (word_of_int (1 OR (drop_bit 6 v AND mask 8)) :: byte) AND push_bit 1 (mask 7))
           OR push_bit 13 (uint (word_of_int (1 OR (drop_bit 13 v AND mask 8)) :: byte) AND push_bit 1 (mask 7))
           OR push_bit 20 (uint (word_of_int (1 OR (drop_bit 20 v AND mask 8)) :: byte) AND push_bit 1 (mask 7))) n
         = bit v n"
    proof cases
      case 1
      then show ?thesis by (auto simp: bit_simps bit_double_Suc bit_mask7_double)
    next
      case 2
      then show ?thesis by (auto simp: bit_simps bit_double_Suc bit_mask7_double)
    next
      case 3
      then show ?thesis by (auto simp: bit_simps bit_double_Suc bit_mask7_double)
    next
      case 4
      then show ?thesis by (auto simp: bit_simps bit_double_Suc bit_mask7_double)
    next
      case 5
      then have "\<not> bit v n" using hi [of n] by auto
      with 5 show ?thesis by (auto simp: bit_simps bit_double_Suc bit_mask7_double)
    qed
  qed
qed

lemma uint_byte_of_int: "0 \<le> x \<Longrightarrow> x < 256 \<Longrightarrow> uint (word_of_int x :: byte) = x"
  by (simp add: uint_word_of_int take_bit_int_eq_self_iff flip: take_bit_eq_mod)

lemma fluxValue_pair:
  assumes "wfEmpty q" "250 \<le> v" "v \<le> 254"
  shows "\<exists>q'. fluxValue (holding q [v, nx])
               = Some (250 + (uint v - 250) * 255 + (uint nx - 1), q') \<and> wfEmpty q'"
proof -
  have "\<not> v < 250" using assms(2) by simp
  then show ?thesis
    using holding_two [OF assms(1), of v nx]
    by (simp add: fluxValue_def Let_def qnext_def)
qed

lemma gwEncodeTicks_pair:
  assumes "250 \<le> t" "t \<le> 1524" "t \<le> nfa_thresh"
  shows "gwEncodeTicks t nfa_thresh
         = [word_of_int (250 + (t - 250) div 255), word_of_int (1 + (t - 250) mod 255)]"
    and "uint (word_of_int (250 + (t - 250) div 255) :: byte) = 250 + (t - 250) div 255"
    and "uint (word_of_int (1 + (t - 250) mod 255) :: byte) = 1 + (t - 250) mod 255"
    and "(250 :: byte) \<le> word_of_int (250 + (t - 250) div 255)"
    and "(word_of_int (250 + (t - 250) div 255) :: byte) \<le> 254"
proof -
  have h: "0 \<le> (t - 250) div 255" "(t - 250) div 255 < 5"
    using assms by simp_all
  show "gwEncodeTicks t nfa_thresh
         = [word_of_int (250 + (t - 250) div 255), word_of_int (1 + (t - 250) mod 255)]"
    using assms h by (simp add: gwEncodeTicks_def Let_def)
  show u0: "uint (word_of_int (250 + (t - 250) div 255) :: byte) = 250 + (t - 250) div 255"
    using h by (intro uint_byte_of_int) simp_all
  show "uint (word_of_int (1 + (t - 250) mod 255) :: byte) = 1 + (t - 250) mod 255"
    by (intro uint_byte_of_int) simp_all
  show "(250 :: byte) \<le> word_of_int (250 + (t - 250) div 255)"
    using h unfolding word_le_def u0 by simp
  show "(word_of_int (250 + (t - 250) div 255) :: byte) \<le> 254"
    using h unfolding word_le_def u0 by simp
qed


lemma freshQueue_wf: "wfEmpty freshQueue"
  by (simp add: freshQueue_def emptyQueue_def wfEmpty_def QUEUE_SIZE_def OVERLAP_WINDOW_SIZE_def)

lemma unpack_pair:
  assumes "wfEmpty q" "250 \<le> v" "v \<le> 254"
  shows "ticks (fst (snd (snd (unpackStreamQueue (holding q [v, nx]) pllData output))))
         = (if ticksToNSec (ticks pllData + (250 + (uint v - 250) * 255 + (uint nx - 1)))
                 (freq pllData) > BITCELL_SIZE_IN_NS
            then 0 else ticks pllData + (250 + (uint v - 250) * 255 + (uint nx - 1)))"
proof -
  obtain q' where f: "fluxValue (holding q [v, nx])
               = Some (250 + (uint v - 250) * 255 + (uint nx - 1), q')"
    using fluxValue_pair [OF assms] by blast
  have ne: "v \<noteq> 255" using assms(3) by auto
  show ?thesis
    using holding_two [OF assms(1), of v nx] ne
    by (simp add: unpackStreamQueue_def f Let_def)
qed

text \<open>
  Claim C8. A queue that holds a first byte \<open>v\<close> from 250 to 254 and a second byte \<open>nx\<close>
  decodes to the tick count \<open>250 + (v - 250) * 255 + (nx - 1)\<close>, which
  \<open>unpackStreamQueue\<close> adds to the PLL's ticks. For every tick count from 250 to 1524
  (and not above the threshold beyond which the encoder writes a Space opcode) the encoder
  writes two bytes, and decoding them gives the tick count back. \<open>read_28bit\<close> applied to
  the four bytes of \<open>write28bit\<close> returns the 28-bit value.
\<close>

theorem flux_run_length_roundtrip:
  "(wfEmpty q \<and> 250 \<le> v \<and> v \<le> 254 \<longrightarrow>
      (\<exists>q'. fluxValue (holding q [v, nx])
              = Some (250 + (uint v - 250) * 255 + (uint nx - 1), q') \<and> wfEmpty q')
      \<and> ticks (fst (snd (snd (unpackStreamQueue (holding q [v, nx]) pllData output))))
         = (if ticksToNSec (ticks pllData + (250 + (uint v - 250) * 255 + (uint nx - 1)))
                 (freq pllData) > BITCELL_SIZE_IN_NS
            then 0 else ticks pllData + (250 + (uint v - 250) * 255 + (uint nx - 1))))
   \<and> (wfEmpty q \<and> 250 \<le> t \<and> t \<le> 1524 \<and> t \<le> nfa_thresh \<longrightarrow>
        length (gwEncodeTicks t nfa_thresh) = 2
        \<and> (\<exists>q'. fluxValue (holding q (gwEncodeTicks t nfa_thresh)) = Some (t, q')
                 \<and> wfEmpty q'))
   \<and> (wfEmpty q \<and> 0 \<le> x \<and> x < 2 ^ 28 \<longrightarrow>
        fst (read_28bit (holding q (write28bit x []))) = x
        \<and> wfEmpty (snd (read_28bit (holding q (write28bit x [])))))"
proof (intro conjI impI)
  assume a: "wfEmpty q \<and> 250 \<le> v \<and> v \<le> 254"
  show "\<exists>q'. fluxValue (holding q [v, nx])
              = Some (250 + (uint v - 250) * 255 + (uint nx - 1), q') \<and> wfEmpty q'"
    using a by (intro fluxValue_pair) simp_all
  show "ticks (fst (snd (snd (unpackStreamQueue (holding q [v, nx]) pllData output))))
         = (if ticksToNSec (ticks pllData + (250 + (uint v - 250) * 255 + (uint nx - 1)))
                 (freq pllData) > BITCELL_SIZE_IN_NS
            then 0 else ticks pllData + (250 + (uint v - 250) * 255 + (uint nx - 1)))"
    using a by (intro unpack_pair) simp_all
next
  assume a: "wfEmpty q \<and> 250 \<le> t \<and> t \<le> 1524 \<and> t \<le> nfa_thresh"
  then have t: "250 \<le> t" "t \<le> 1524" "t \<le> nfa_thresh" and w: "wfEmpty q" by simp_all
  note e = gwEncodeTicks_pair [OF t]
  show "length (gwEncodeTicks t nfa_thresh) = 2"
    by (simp add: e(1))
  have "250 + (uint (word_of_int (250 + (t - 250) div 255) :: byte) - 250) * 255
          + (uint (word_of_int (1 + (t - 250) mod 255) :: byte) - 1) = t"
    unfolding e(2) e(3) by simp
  with fluxValue_pair [OF w e(4) e(5), of "word_of_int (1 + (t - 250) mod 255)"]
  show "\<exists>q'. fluxValue (holding q (gwEncodeTicks t nfa_thresh)) = Some (t, q') \<and> wfEmpty q'"
    unfolding e(1) by simp
next
  assume a: "wfEmpty q \<and> 0 \<le> x \<and> x < 2 ^ 28"
  then have w: "wfEmpty q" and x: "0 \<le> x" "x < 2 ^ 28" by simp_all
  show "fst (read_28bit (holding q (write28bit x []))) = x"
    unfolding write28bit_def append_Nil holding_four(1) [OF w]
    by (rule bit28 [OF x])
  show "wfEmpty (snd (read_28bit (holding q (write28bit x []))))"
    unfolding write28bit_def append_Nil by (rule holding_four(2) [OF w])
qed

theorem flux_run_length_roundtrip_witness:
  "wfEmpty freshQueue
   \<and> (\<exists>q'. fluxValue (holding freshQueue [252, 7]) = Some (766, q'))
   \<and> gwEncodeTicks 1000 10800 = [252, 241]
   \<and> (\<exists>q'. fluxValue (holding freshQueue (gwEncodeTicks 1000 10800)) = Some (1000, q'))
   \<and> fst (read_28bit (holding freshQueue (write28bit 123456789 []))) = 123456789"
  using flux_run_length_roundtrip [of freshQueue 252 7 "\<lparr>freq = 72000000, ticks = 0\<rparr>"
          "\<lparr>seq_sequence = 0, seq_speed = 0, seq_atIndex = False\<rparr>" 1000 10800 123456789]
        freshQueue_wf
  by (auto simp: gwEncodeTicks_def)

section \<open>Promotion of the next buffer\<close>

lemma updEntry_read:
  "m_mfmRead (updEntry b cyl sd f) c s
     = (if c = cyl \<and> s = sd then f (m_mfmRead b cyl sd) else m_mfmRead b c s)"
  by (simp add: updEntry_def)

lemma updEntry_fields:
  "m_currentTrack (updEntry b cyl sd f) = m_currentTrack b"
  "m_floppySide (updEntry b cyl sd f) = m_floppySide b"
  "m_queue (updEntry b cyl sd f) = m_queue b"
  "m_actualCurrentCylinder (updEntry b cyl sd f) = m_actualCurrentCylinder b"
  "m_actualFloppySide (updEntry b cyl sd f) = m_actualFloppySide b"
  by (simp_all add: updEntry_def)

lemma internalSwitchCylinder_read:
  "m_mfmRead (internalSwitchCylinder b cyl sd) c s
     = (if c = cyl \<and> s = sd \<and> ready (next_c (m_mfmRead b cyl sd))
        then (m_mfmRead b cyl sd)\<lparr>current := next_c (m_mfmRead b cyl sd),
               next_c := (next_c (m_mfmRead b cyl sd))\<lparr>amountReadInBits := 0, ready := False\<rparr>\<rparr>
        else m_mfmRead b c s)"
  by (simp add: internalSwitchCylinder_def updEntry_read)

lemma saveNextBuffer_read:
  "m_mfmRead (saveNextBuffer b cyl sd) c s
     = (if c = cyl \<and> s = sd then
          (let e = m_mfmRead b cyl sd;
               e1 = (if amountReadInBits (next_c e) \<noteq> 0
                     then e\<lparr>next_c := (next_c e)\<lparr>ready := True\<rparr>\<rparr> else e)
           in if ready (next_c e1) \<and> \<not> ready (current e1)
              then e1\<lparr>current := next_c e1,
                      next_c := (next_c e1)\<lparr>amountReadInBits := 0, ready := False\<rparr>\<rparr>
              else e1)
        else m_mfmRead b c s)"
  by (simp add: saveNextBuffer_def Let_def internalSwitchCylinder_read updEntry_read
        internalSwitchCylinder_def updEntry_fields)

text \<open>
  Claim C3, as the code has it. \<open>saveNextBuffer\<close> marks the next buffer ready when its bit
  count is not 0, and the promotion (in \<open>saveNextBuffer\<close> and \<open>internalSwitchCylinder\<close>)
  makes the current buffer a copy of the ready next buffer. So both operations keep, for
  the entry they work on, that a ready buffer has a bit count other than 0, and leave
  every other entry as it is; a next buffer of any non-zero bit count is promoted when the
  current buffer is not ready, and an empty one is not. No operation compares a bit
  count with 97072: that number is only what \<open>maxMFMBitPosition\<close> reports at least while
  the current buffer is not ready.
\<close>

theorem promotion_keeps_nonzero:
  "(entryInv (m_mfmRead b cyl sd)
      \<longrightarrow> entryInv (m_mfmRead (saveNextBuffer b cyl sd) cyl sd)
        \<and> entryInv (m_mfmRead (internalSwitchCylinder b cyl sd) cyl sd))
   \<and> (c \<noteq> cyl \<or> s \<noteq> sd
      \<longrightarrow> m_mfmRead (saveNextBuffer b cyl sd) c s = m_mfmRead b c s
        \<and> m_mfmRead (internalSwitchCylinder b cyl sd) c s = m_mfmRead b c s)
   \<and> (\<not> ready (current (m_mfmRead b cyl sd))
        \<and> amountReadInBits (next_c (m_mfmRead b cyl sd)) \<noteq> 0
      \<longrightarrow> current (m_mfmRead (saveNextBuffer b cyl sd) cyl sd)
            = (next_c (m_mfmRead b cyl sd))\<lparr>ready := True\<rparr>)
   \<and> (\<not> ready (next_c (m_mfmRead b cyl sd))
        \<and> amountReadInBits (next_c (m_mfmRead b cyl sd)) = 0
      \<longrightarrow> m_mfmRead (saveNextBuffer b cyl sd) cyl sd = m_mfmRead b cyl sd)
   \<and> (ready (current (activeCache b)) \<or> maxMFMBitPosition b \<ge> 97072)"
  by (auto simp: entryInv_def saveNextBuffer_read internalSwitchCylinder_read Let_def
        maxMFMBitPosition_def THEORETICAL_MINIMUM_TRACK_LENGTH_def)

lemma filledBridge_entry:
  "m_mfmRead filledBridge 0 dsLower = zeroCaches\<lparr>next_c := zeroCache\<lparr>amountReadInBits := 128\<rparr>\<rparr>"
  by (simp add: filledBridge_def updNext_def updEntry_read spinningBridge_def initialBridge_def
        zeroCaches_def)

theorem promotion_keeps_nonzero_witness:
  "entryInv (m_mfmRead filledBridge 0 dsLower)
   \<and> entryInv (m_mfmRead (saveNextBuffer filledBridge 0 dsLower) 0 dsLower)
   \<and> m_mfmRead (saveNextBuffer filledBridge 0 dsLower) 1 dsLower = m_mfmRead filledBridge 1 dsLower
   \<and> \<not> ready (current (m_mfmRead filledBridge 0 dsLower))
   \<and> amountReadInBits (next_c (m_mfmRead filledBridge 0 dsLower)) \<noteq> 0
   \<and> ready (current (m_mfmRead (saveNextBuffer filledBridge 0 dsLower) 0 dsLower))
   \<and> amountReadInBits (current (m_mfmRead (saveNextBuffer filledBridge 0 dsLower) 0 dsLower)) = 128
   \<and> m_mfmRead (saveNextBuffer spinningBridge 0 dsLower) 0 dsLower = m_mfmRead spinningBridge 0 dsLower"
  using promotion_keeps_nonzero [of filledBridge 0 dsLower 1 dsLower]
        promotion_keeps_nonzero [of spinningBridge 0 dsLower 1 dsLower]
  by (simp add: filledBridge_entry entryInv_def zeroCaches_def zeroCache_def spinningBridge_def
        initialBridge_def)

lemma spinning_fields:
  "isReady spinningBridge" "m_actualCurrentCylinder spinningBridge = 0"
  "m_actualFloppySide spinningBridge = dsLower" "m_queue spinningBridge = []"
  "m_mfmRead spinningBridge 0 dsLower = zeroCaches"
  "m_currentTrack spinningBridge = 0" "m_floppySide spinningBridge = dsLower"
  by (simp_all add: spinningBridge_def initialBridge_def isReady_def)

lemma updNext_fields:
  "m_currentTrack (updNext b cyl sd f) = m_currentTrack b"
  "m_floppySide (updNext b cyl sd f) = m_floppySide b"
  "m_queue (updNext b cyl sd f) = m_queue b"
  "m_actualCurrentCylinder (updNext b cyl sd f) = m_actualCurrentCylinder b"
  "m_actualFloppySide (updNext b cyl sd f) = m_actualFloppySide b"
  "m_mfmRead (updNext b cyl sd f) c s
     = (if c = cyl \<and> s = sd then (m_mfmRead b cyl sd)\<lparr>next_c := f (next_c (m_mfmRead b cyl sd))\<rparr>
        else m_mfmRead b c s)"
  by (simp_all add: updNext_def updEntry_fields updEntry_read)

lemma saveNextBuffer_fields:
  "m_queue (saveNextBuffer b cyl sd) = m_queue b"
  "m_actualCurrentCylinder (saveNextBuffer b cyl sd) = m_actualCurrentCylinder b"
  "m_actualFloppySide (saveNextBuffer b cyl sd) = m_actualFloppySide b"
  by (simp_all add: saveNextBuffer_def Let_def updEntry_fields internalSwitchCylinder_def)

text \<open>
  Claim C3 as stated fails: after a background read in which the revolution ends after 128
  bits, the current buffer is ready with a bit count of 128, below 97072.
\<close>

theorem short_revolution_counterexample:
  "\<not> ready (current (m_mfmRead spinningBridge 0 dsLower))
   \<and> ready (current (m_mfmRead shortRevolution 0 dsLower))
   \<and> amountReadInBits (current (m_mfmRead shortRevolution 0 dsLower)) = 128
   \<and> 128 < THEORETICAL_MINIMUM_TRACK_LENGTH * 8"
  by (simp add: shortRevolution_def handleBackgroundDiskRead_def Let_def spinning_fields
        updNext_fields streamCallback_def saveNextBuffer_read saveNextBuffer_fields
        zeroCaches_def zeroCache_def ARD_MFM_BUFFER_MAX_TRACK_LENGTH_def
        THEORETICAL_MINIMUM_TRACK_LENGTH_def)

section \<open>The sliding-window search\<close>

lemma windowScore_bounds:
  "0 \<le> windowScore s ar c" "windowScore s ar c \<le> int (length s)"
proof -
  show "0 \<le> windowScore s ar c" by (simp add: windowScore_def)
  have "length (filter (\<lambda>pos. 0 \<le> c + int pos \<and> c + int pos < int (length ar)
                     \<and> s ! pos = ar ! nat (c + int pos)) [0..<length s]) \<le> length [0..<length s]"
    by (rule length_filter_le)
  then show "windowScore s ar c \<le> int (length s)" by (simp add: windowScore_def)
qed

lemma fan_cases:
  fixes a c m :: int
  assumes "0 \<le> a" "\<bar>c - m\<bar> < a + 1"
  shows "\<bar>c - m\<bar> < a \<or> c = m - a \<or> c = m + a"
  using assms by linarith

lemma fanInv_keep:
  assumes "fanInv f m i0 a best" "0 \<le> a" "f (m - a) \<le> snd best" "f (m + a) \<le> snd best"
  shows "fanInv f m i0 (a + 1) best"
proof -
  have cover: "f c \<le> snd best" if "\<bar>c - m\<bar> < a + 1" for c
    using fan_cases [OF assms(2) that] assms by (auto simp: fanInv_def)
  show ?thesis
    using assms(1) cover unfolding fanInv_def by auto
qed

lemma fanInv_low:
  assumes "fanInv f m i0 a best" "0 \<le> a" "snd best < f (m - a)" "f (m + a) \<le> f (m - a)"
  shows "fanInv f m i0 (a + 1) (m - a, f (m - a))"
proof -
  have old: "f c \<le> snd best" if "\<bar>c - m\<bar> < a" for c
    using assms(1) that by (auto simp: fanInv_def)
  have nn: "0 \<le> snd best" using assms(1) by (simp add: fanInv_def)
  have cover: "f c \<le> f (m - a)" if "\<bar>c - m\<bar> < a + 1" for c
    using fan_cases [OF assms(2) that] old [of c] assms(3,4) by auto
  have strict: "f c < f (m - a)" if "\<bar>c - m\<bar> < \<bar>(m - a) - m\<bar>" for c
  proof -
    have "\<bar>c - m\<bar> < a" using that assms(2) by simp
    then show ?thesis using old [of c] assms(3) by simp
  qed
  show ?thesis
    unfolding fanInv_def fst_conv snd_conv
    using nn assms(2,3) cover strict by auto
qed

lemma fanInv_high:
  assumes "fanInv f m i0 a best" "0 \<le> a" "snd best < f (m + a)" "f (m - a) < f (m + a)"
  shows "fanInv f m i0 (a + 1) (m + a, f (m + a))"
proof -
  have old: "f c \<le> snd best" if "\<bar>c - m\<bar> < a" for c
    using assms(1) that by (auto simp: fanInv_def)
  have nn: "0 \<le> snd best" using assms(1) by (simp add: fanInv_def)
  have cover: "f c \<le> f (m + a)" if "\<bar>c - m\<bar> < a + 1" for c
    using fan_cases [OF assms(2) that] old [of c] assms(3,4) by auto
  have strict: "f c < f (m + a)" if "\<bar>c - m\<bar> < \<bar>(m + a) - m\<bar>" for c
  proof -
    have "\<bar>c - m\<bar> < a" using that assms(2) by simp
    then show ?thesis using old [of c] assms(3) by simp
  qed
  have mirror: "f (2 * m - (m + a)) < f (m + a)"
    using assms(4) by (simp add: algebra_simps)
  show ?thesis
    unfolding fanInv_def fst_conv snd_conv
    using nn assms(2,3) cover strict mirror by auto
qed

lemma fanInv_final:
  assumes "fanInv f m i0 a best" "a \<le> m + 1" "\<And>c. f c \<le> snd best"
  shows "fanInv f m i0 (m + 1) best"
  using assms unfolding fanInv_def by auto


lemma tryCandidate_simps:
  "tryCandidate s ar best c
   = (if snd best < windowScore s ar c
      then ((c, windowScore s ar c), windowScore s ar c = int (length s))
      else (best, False))"
  by (simp add: tryCandidate_def Let_def)

lemma two_tries:
  assumes inv: "fanInv (windowScore s ar) m i0 a best" and a: "0 \<le> a"
  defines "r1 \<equiv> tryCandidate s ar best (m - a)"
  defines "r2 \<equiv> tryCandidate s ar (fst r1) (m + a)"
  shows "snd r1 \<Longrightarrow> fanInv (windowScore s ar) m i0 (a + 1) (fst r1)
                    \<and> snd (fst r1) = int (length s)"
    and "\<not> snd r1 \<Longrightarrow> fanInv (windowScore s ar) m i0 (a + 1) (fst r2)
                    \<and> (snd r2 \<longrightarrow> snd (fst r2) = int (length s))"
proof -
  let ?f = "windowScore s ar"
  have top: "?f c \<le> int (length s)" for c by (rule windowScore_bounds)
  {
    assume stop: "snd r1"
    then have gt: "snd best < ?f (m - a)" and w: "?f (m - a) = int (length s)"
      and r1: "fst r1 = (m - a, ?f (m - a))"
      by (auto simp: r1_def tryCandidate_simps split: if_splits)
    have "?f (m + a) \<le> ?f (m - a)" using top [of "m + a"] w by simp
    from fanInv_low [OF inv a gt this] w r1
    show "fanInv ?f m i0 (a + 1) (fst r1) \<and> snd (fst r1) = int (length s)" by simp
  }
  {
    assume go: "\<not> snd r1"
    show "fanInv ?f m i0 (a + 1) (fst r2) \<and> (snd r2 \<longrightarrow> snd (fst r2) = int (length s))"
    proof (cases "snd best < ?f (m - a)")
      case True
      then have r1: "fst r1 = (m - a, ?f (m - a))"
        by (simp add: r1_def tryCandidate_simps)
      show ?thesis
      proof (cases "?f (m - a) < ?f (m + a)")
        case hi: True
        then have r2: "fst r2 = (m + a, ?f (m + a))" "snd r2 = (?f (m + a) = int (length s))"
          by (simp_all add: r2_def r1 tryCandidate_simps)
        have "snd best < ?f (m + a)" using True hi by simp
        from fanInv_high [OF inv a this hi] r2 show ?thesis by simp
      next
        case lo: False
        then have r2: "fst r2 = (m - a, ?f (m - a))" "snd r2 = False"
          by (simp_all add: r2_def r1 tryCandidate_simps)
        have "?f (m + a) \<le> ?f (m - a)" using lo by simp
        from fanInv_low [OF inv a True this] r2 show ?thesis by simp
      qed
    next
      case False
      then have r1: "fst r1 = best"
        by (simp add: r1_def tryCandidate_simps)
      show ?thesis
      proof (cases "snd best < ?f (m + a)")
        case hi: True
        then have r2: "fst r2 = (m + a, ?f (m + a))" "snd r2 = (?f (m + a) = int (length s))"
          by (simp_all add: r2_def r1 tryCandidate_simps)
        have "?f (m - a) < ?f (m + a)" using False hi by simp
        from fanInv_high [OF inv a hi this] r2 show ?thesis by simp
      next
        case lo: False
        then have r2: "fst r2 = best" "snd r2 = False"
          by (simp_all add: r2_def r1 tryCandidate_simps)
        have "?f (m - a) \<le> snd best" "?f (m + a) \<le> snd best" using False lo by simp_all
        from fanInv_keep [OF inv a this] r2 show ?thesis by simp
      qed
    qed
  }
qed

lemma fanOut_post:
  "fanInv (windowScore s ar) m i0 a best \<Longrightarrow> 0 \<le> a \<Longrightarrow> a \<le> m + 1
   \<Longrightarrow> fanInv (windowScore s ar) m i0 (m + 1) (fanOut s ar m a best)"
proof (induction s ar m a best rule: fanOut.induct)
  case (1 s ar m a best)
  let ?f = "windowScore s ar"
  have top: "?f c \<le> int (length s)" for c by (rule windowScore_bounds)
  show ?case
  proof (cases "a \<le> m")
    case False
    then have "a = m + 1" using "1.prems" by simp
    moreover have "fanOut s ar m a best = best"
      using False by (subst fanOut.simps) simp
    ultimately show ?thesis using "1.prems"(1) by simp
  next
    case True
    define r1 where "r1 = tryCandidate s ar best (m - a)"
    define r2 where "r2 = tryCandidate s ar (fst r1) (m + a)"
    have unfold: "fanOut s ar m a best
                  = (if snd r1 then fst r1
                     else if snd r2 then fst r2 else fanOut s ar m (a + 1) (fst r2))"
      using True by (subst fanOut.simps) (simp add: Let_def r1_def r2_def)
    note tt = two_tries [OF "1.prems"(1,2), folded r1_def r2_def]
    show ?thesis
    proof (cases "snd r1")
      case s1: True
      from tt(1) [OF s1] have i: "fanInv ?f m i0 (a + 1) (fst r1)"
        and w: "snd (fst r1) = int (length s)" by simp_all
      have "fanInv ?f m i0 (m + 1) (fst r1)"
        by (rule fanInv_final [OF i]) (use True w top in simp_all)
      then show ?thesis using s1 by (simp add: unfold)
    next
      case s1: False
      from tt(2) [OF s1] have i: "fanInv ?f m i0 (a + 1) (fst r2)"
        and w: "snd r2 \<longrightarrow> snd (fst r2) = int (length s)" by simp_all
      show ?thesis
      proof (cases "snd r2")
        case s2: True
        have "fanInv ?f m i0 (m + 1) (fst r2)"
          by (rule fanInv_final [OF i]) (use True w s2 top in simp_all)
        then show ?thesis using s1 s2 by (simp add: unfold)
      next
        case s2: False
        have "fanInv ?f m i0 (m + 1) (fanOut s ar m (a + 1) (fst r2))"
          apply (rule "1.IH" [OF True _ _ _ _ i])
          using s1 s2 True "1.prems"(2) by (simp_all add: r1_def r2_def)
        then show ?thesis using s1 s2 by (simp add: unfold)
      qed
    qed
  qed
qed


lemma length_drain: "length (drain q) = bytes q"
proof (induction q rule: drain.induct)
  case (1 q)
  show ?case
  proof (cases "qsize q \<noteq> 0")
    case True
    then have "length (drain (pop q)) = bytes (pop q)" by (rule "1.IH")
    then show ?thesis
      using True by (subst drain.simps) (simp add: pop_def qsize_def)
  next
    case False
    then show ?thesis by (subst drain.simps) (simp add: qsize_def)
  qed
qed

lemma midPoint_plain:
  assumes "length fp = 32" "64 \<le> n" "n \<le> 256"
  shows "int (((n + 2 ^ 32 - length fp mod 2 ^ 32) mod 2 ^ 32) div 2) = (int n - 32) div 2"
proof -
  define k where "k = n - 32"
  have n: "n = k + 32" and k: "k < 2 ^ 32" using assms by (simp_all add: k_def)
  have "n + 2 ^ 32 - length fp mod 2 ^ 32 = 2 ^ 32 + k"
    using assms(1) by (simp add: n)
  moreover have "(2 ^ 32 + k) mod 2 ^ 32 = k"
    using k by simp
  ultimately have "((n + 2 ^ 32 - length fp mod 2 ^ 32) mod 2 ^ 32) div 2 = k div 2"
    by simp
  then show ?thesis by (simp add: n zdiv_int)
qed

lemma findSlidingWindow_fan:
  assumes "length fp = OVERLAP_WINDOW_SIZE"
    "OVERLAP_WINDOW_SIZE \<le> qsize fut" "qsize fut \<le> QUEUE_SIZE"
    "OVERLAP_WINDOW_SIZE \<le> qsize cur" "qsize cur \<le> QUEUE_SIZE"
  shows "findSlidingWindow fp fut cur
         = fst (fanOut fp (searchAreaOf cur fut) (midPointOf cur fut) 0 (int (qsize cur) - 1, 0))"
    and "fanInv (windowScore fp (searchAreaOf cur fut)) (midPointOf cur fut) (int (qsize cur) - 1)
           (midPointOf cur fut + 1)
           (fanOut fp (searchAreaOf cur fut) (midPointOf cur fut) 0 (int (qsize cur) - 1, 0))"
    and "0 \<le> midPointOf cur fut"
    and "int (qsize cur) - 1 \<le> 2 * midPointOf cur fut"
proof -
  have len: "length (searchAreaOf cur fut) = qsize cur + qsize fut"
    by (simp add: searchAreaOf_def length_drain qsize_def)
  have b: "length fp = 32" "64 \<le> qsize cur + qsize fut" "qsize cur + qsize fut \<le> 256"
    using assms by (simp_all add: OVERLAP_WINDOW_SIZE_def QUEUE_SIZE_def)
  have mid: "int (((length (searchAreaOf cur fut) + 2 ^ 32 - length fp mod 2 ^ 32) mod 2 ^ 32) div 2)
             = midPointOf cur fut"
    unfolding len midPoint_plain [OF b] by (simp add: midPointOf_def OVERLAP_WINDOW_SIZE_def)
  show "findSlidingWindow fp fut cur
         = fst (fanOut fp (searchAreaOf cur fut) (midPointOf cur fut) 0 (int (qsize cur) - 1, 0))"
    using assms(1,2,4) mid
    by (simp add: findSlidingWindow_def slidingSearch_def Let_def searchAreaOf_def)
  show m0: "0 \<le> midPointOf cur fut"
    using b by (simp add: midPointOf_def OVERLAP_WINDOW_SIZE_def)
  have "fanInv (windowScore fp (searchAreaOf cur fut)) (midPointOf cur fut) (int (qsize cur) - 1)
          0 (int (qsize cur) - 1, 0)"
    by (simp add: fanInv_def)
  then show "fanInv (windowScore fp (searchAreaOf cur fut)) (midPointOf cur fut) (int (qsize cur) - 1)
           (midPointOf cur fut + 1)
           (fanOut fp (searchAreaOf cur fut) (midPointOf cur fut) 0 (int (qsize cur) - 1, 0))"
    using m0 by (intro fanOut_post) simp_all
  show "int (qsize cur) - 1 \<le> 2 * midPointOf cur fut"
    using assms(2) by (simp add: midPointOf_def OVERLAP_WINDOW_SIZE_def)
qed



lemma holding_shape:
  "bytes q + length xs \<le> QUEUE_SIZE \<Longrightarrow>
   bytes (holding q xs) = bytes q + length xs
   \<and> readHead (holding q xs) = readHead q
   \<and> length (buffer (holding q xs)) = length (buffer q)
   \<and> set (buffer (holding q xs)) \<subseteq> set (buffer q) \<union> set xs"
proof (induction xs arbitrary: q)
  case Nil
  then show ?case by (simp add: holding_def)
next
  case (Cons x xs)
  let ?q = "qpush q x"
  have q: "bytes ?q = bytes q + 1" "readHead ?q = readHead q"
    "length (buffer ?q) = length (buffer q)"
    using Cons.prems by (simp_all add: qpush_def)
  have s: "set (buffer ?q) \<subseteq> insert x (set (buffer q))"
    using Cons.prems by (simp add: qpush_def set_update_subset_insert)
  have "bytes ?q + length xs \<le> QUEUE_SIZE" using Cons.prems q by simp
  from Cons.IH [OF this] q s show ?case
    unfolding holding_def foldl_Cons by auto
qed

lemma set_drain:
  "readHead q < QUEUE_SIZE \<Longrightarrow> length (buffer q) = QUEUE_SIZE
   \<Longrightarrow> set (drain q) \<subseteq> set (buffer q)"
proof (induction q rule: drain.induct)
  case (1 q)
  show ?case
  proof (cases "qsize q \<noteq> 0")
    case True
    have p: "readHead (pop q) < QUEUE_SIZE" "buffer (pop q) = buffer q"
      using "1.prems" by (simp_all add: pop_def QUEUE_SIZE_def OVERLAP_WINDOW_SIZE_def)
    have "set (drain (pop q)) \<subseteq> set (buffer (pop q))"
      using True p "1.prems" by (intro "1.IH") simp_all
    moreover have "front q \<in> set (buffer q)"
      using "1.prems" by (simp add: front_def)
    ultimately show ?thesis
      using True p by (subst drain.simps) simp
  next
    case False
    then show ?thesis by (subst drain.simps) simp
  qed
qed

lemma windowScore_disjoint:
  assumes "set fp \<inter> set ar = {}"
  shows "windowScore fp ar c = 0"
proof -
  have "\<not> (0 \<le> c + int pos \<and> c + int pos < int (length ar) \<and> fp ! pos = ar ! nat (c + int pos))"
    if "pos \<in> set [0..<length fp]" for pos
  proof
    assume h: "0 \<le> c + int pos \<and> c + int pos < int (length ar) \<and> fp ! pos = ar ! nat (c + int pos)"
    have "fp ! pos \<in> set fp" using that by simp
    moreover have "ar ! nat (c + int pos) \<in> set ar" using h by (intro nth_mem) linarith
    ultimately show False using assms h by auto
  qed
  then have "filter (\<lambda>pos. 0 \<le> c + int pos \<and> c + int pos < int (length ar)
                     \<and> fp ! pos = ar ! nat (c + int pos)) [0..<length fp] = []"
    by (simp add: filter_empty_conv)
  then show ?thesis by (simp add: windowScore_def)
qed

lemma twos_shape:
  "qsize twos = 32" "set (searchAreaOf twos twos) \<subseteq> {0, 2}" "midPointOf twos twos = 16"
proof -
  let ?e = "emptyQueue (replicate QUEUE_SIZE (packetOf 0))"
  have le: "bytes ?e + length (replicate 32 (packetOf 2)) \<le> QUEUE_SIZE"
    by (simp add: emptyQueue_def QUEUE_SIZE_def OVERLAP_WINDOW_SIZE_def)
  note h = holding_shape [OF le]
  show q: "qsize twos = 32"
    using h by (simp add: twos_def qsize_def emptyQueue_def)
  have "set (drain twos) \<subseteq> set (buffer twos)"
    using h by (intro set_drain) (simp_all add: twos_def emptyQueue_def QUEUE_SIZE_def OVERLAP_WINDOW_SIZE_def)
  moreover have "set (buffer twos) \<subseteq> {packetOf 0, packetOf 2}"
    using h by (auto simp: twos_def emptyQueue_def)
  ultimately have "set (drain twos) \<subseteq> {packetOf 0, packetOf 2}" by blast
  then show "set (searchAreaOf twos twos) \<subseteq> {0, 2}"
    by (auto simp: searchAreaOf_def packetOf_def)
  show "midPointOf twos twos = 16"
    by (simp add: midPointOf_def q OVERLAP_WINDOW_SIZE_def)
qed

lemma ones_score: "windowScore ones (searchAreaOf twos twos) c = 0"
proof (rule windowScore_disjoint)
  show "set ones \<inter> set (searchAreaOf twos twos) = {}"
    using twos_shape(2) by (auto simp: ones_def)
qed


lemma fan_result:
  assumes inv: "fanInv f m i0 (m + 1) best" and nn: "\<And>c. 0 \<le> f c"
    and m: "0 \<le> m" and i0: "0 \<le> i0" "i0 \<le> 2 * m"
  shows "0 \<le> fst best \<and> fst best \<le> 2 * m"
    and "0 \<le> c \<and> c \<le> 2 * m \<Longrightarrow> f c \<le> f (fst best)"
    and "0 < f (fst best) \<Longrightarrow> 0 \<le> c \<and> c \<le> 2 * m \<Longrightarrow> f c = f (fst best)
         \<Longrightarrow> \<bar>fst best - m\<bar> \<le> \<bar>c - m\<bar> \<and> (\<bar>fst best - m\<bar> = \<bar>c - m\<bar> \<longrightarrow> fst best \<le> c)"
    and "f (fst best) = 0 \<Longrightarrow> fst best = i0"
proof -
  have cover: "f c \<le> snd best" if "0 \<le> c \<and> c \<le> 2 * m" for c
  proof -
    have "\<bar>c - m\<bar> < m + 1" using that by linarith
    then show ?thesis using inv by (auto simp: fanInv_def)
  qed
  have range: "0 \<le> fst best \<and> fst best \<le> 2 * m"
  proof (cases "0 < snd best")
    case True
    then have "\<bar>fst best - m\<bar> < m + 1" using inv by (auto simp: fanInv_def)
    then show ?thesis by linarith
  next
    case False
    then have "snd best = 0" using inv by (auto simp: fanInv_def)
    then have "fst best = i0" using inv by (auto simp: fanInv_def)
    then show ?thesis using i0 by simp
  qed
  have val: "f (fst best) = snd best"
  proof (cases "0 < snd best")
    case True
    then show ?thesis using inv by (auto simp: fanInv_def)
  next
    case False
    then have z: "snd best = 0" using inv by (auto simp: fanInv_def)
    have "f (fst best) \<le> 0" using cover [OF range] z by simp
    then show ?thesis using nn [of "fst best"] z by simp
  qed
  show "0 \<le> fst best \<and> fst best \<le> 2 * m" by (rule range)
  show "f c \<le> f (fst best)" if "0 \<le> c \<and> c \<le> 2 * m"
    using cover [OF that] val by simp
  show "f (fst best) = 0 \<Longrightarrow> fst best = i0"
    using inv val by (auto simp: fanInv_def)
  show "\<bar>fst best - m\<bar> \<le> \<bar>c - m\<bar> \<and> (\<bar>fst best - m\<bar> = \<bar>c - m\<bar> \<longrightarrow> fst best \<le> c)"
    if pos: "0 < f (fst best)" and c: "0 \<le> c \<and> c \<le> 2 * m" and tie: "f c = f (fst best)"
  proof -
    have p: "0 < snd best" using pos val by simp
    have first: "\<And>d. \<bar>d - m\<bar> < \<bar>fst best - m\<bar> \<Longrightarrow> f d < snd best"
      and mirror: "m < fst best \<Longrightarrow> f (2 * m - fst best) < snd best"
      using inv p by (auto simp: fanInv_def)
    have far: "\<bar>fst best - m\<bar> \<le> \<bar>c - m\<bar>"
    proof (rule ccontr)
      assume "\<not> \<bar>fst best - m\<bar> \<le> \<bar>c - m\<bar>"
      then have "f c < snd best" by (intro first) simp
      then show False using tie val by simp
    qed
    have low: "fst best \<le> c" if eq: "\<bar>fst best - m\<bar> = \<bar>c - m\<bar>"
    proof (rule ccontr)
      assume "\<not> fst best \<le> c"
      then have "c = 2 * m - fst best" "m < fst best" using eq by linarith+
      then have "f c < snd best" using mirror by simp
      then show False using tie val by simp
    qed
    show ?thesis using far low by simp
  qed
qed

text \<open>
  Claim C5, as the code has it. \<open>findSlidingWindow\<close> returns 0 when one of its three
  inputs has fewer than 32 elements. Otherwise (fingerprint of 32 codes, queues within
  their capacity) it returns a start index among the candidates from 0 to twice the
  midpoint \<open>(len (current @ future) - 32) div 2\<close> whose score, the number of positions
  where the search area equals the fingerprint, is the highest of all candidates. When
  that score is above 0 the index is, among the candidates with this score, the one
  nearest to the midpoint (the lower of two at the same distance), which is where the
  scan meets the score first; a perfect score ends the scan, and no later candidate can
  beat it. When no candidate scores above 0 it returns the size of the current queue
  minus 1, not the midpoint.
\<close>

theorem findSlidingWindow_best:
  "(qsize fut < OVERLAP_WINDOW_SIZE \<or> qsize cur < OVERLAP_WINDOW_SIZE
      \<or> length fp < OVERLAP_WINDOW_SIZE
    \<longrightarrow> findSlidingWindow fp fut cur = 0)
   \<and> (length fp = OVERLAP_WINDOW_SIZE
        \<and> OVERLAP_WINDOW_SIZE \<le> qsize fut \<and> qsize fut \<le> QUEUE_SIZE
        \<and> OVERLAP_WINDOW_SIZE \<le> qsize cur \<and> qsize cur \<le> QUEUE_SIZE
      \<longrightarrow> 0 \<le> findSlidingWindow fp fut cur
          \<and> findSlidingWindow fp fut cur \<le> 2 * midPointOf cur fut
          \<and> (\<forall>c. 0 \<le> c \<and> c \<le> 2 * midPointOf cur fut
                \<longrightarrow> windowScore fp (searchAreaOf cur fut) c
                    \<le> windowScore fp (searchAreaOf cur fut) (findSlidingWindow fp fut cur))
          \<and> (0 < windowScore fp (searchAreaOf cur fut) (findSlidingWindow fp fut cur)
              \<longrightarrow> (\<forall>c. 0 \<le> c \<and> c \<le> 2 * midPointOf cur fut
                        \<and> windowScore fp (searchAreaOf cur fut) c
                            = windowScore fp (searchAreaOf cur fut) (findSlidingWindow fp fut cur)
                     \<longrightarrow> \<bar>findSlidingWindow fp fut cur - midPointOf cur fut\<bar>
                           \<le> \<bar>c - midPointOf cur fut\<bar>
                         \<and> (\<bar>findSlidingWindow fp fut cur - midPointOf cur fut\<bar>
                              = \<bar>c - midPointOf cur fut\<bar>
                            \<longrightarrow> findSlidingWindow fp fut cur \<le> c)))
          \<and> (windowScore fp (searchAreaOf cur fut) (findSlidingWindow fp fut cur) = 0
              \<longrightarrow> findSlidingWindow fp fut cur = int (qsize cur) - 1))"
proof (intro conjI impI allI)
  assume "qsize fut < OVERLAP_WINDOW_SIZE \<or> qsize cur < OVERLAP_WINDOW_SIZE
      \<or> length fp < OVERLAP_WINDOW_SIZE"
  then show "findSlidingWindow fp fut cur = 0"
    by (auto simp: findSlidingWindow_def)
next
  assume a: "length fp = OVERLAP_WINDOW_SIZE
        \<and> OVERLAP_WINDOW_SIZE \<le> qsize fut \<and> qsize fut \<le> QUEUE_SIZE
        \<and> OVERLAP_WINDOW_SIZE \<le> qsize cur \<and> qsize cur \<le> QUEUE_SIZE"
  then have h: "length fp = OVERLAP_WINDOW_SIZE"
    "OVERLAP_WINDOW_SIZE \<le> qsize fut" "qsize fut \<le> QUEUE_SIZE"
    "OVERLAP_WINDOW_SIZE \<le> qsize cur" "qsize cur \<le> QUEUE_SIZE" by simp_all
  note f = findSlidingWindow_fan [OF h]
  have i0: "0 \<le> int (qsize cur) - 1" using h(4) by (simp add: OVERLAP_WINDOW_SIZE_def)
  note r = fan_result [OF f(2) windowScore_bounds(1) f(3) i0 f(4), folded f(1)]
  show "0 \<le> findSlidingWindow fp fut cur" using r(1) by simp
  show "findSlidingWindow fp fut cur \<le> 2 * midPointOf cur fut" using r(1) by simp
  show "windowScore fp (searchAreaOf cur fut) c
          \<le> windowScore fp (searchAreaOf cur fut) (findSlidingWindow fp fut cur)"
    if "0 \<le> c \<and> c \<le> 2 * midPointOf cur fut" for c
    using r(2) [OF that] .
  show "\<bar>findSlidingWindow fp fut cur - midPointOf cur fut\<bar> \<le> \<bar>c - midPointOf cur fut\<bar>"
    if "0 < windowScore fp (searchAreaOf cur fut) (findSlidingWindow fp fut cur)"
      "0 \<le> c \<and> c \<le> 2 * midPointOf cur fut
        \<and> windowScore fp (searchAreaOf cur fut) c
            = windowScore fp (searchAreaOf cur fut) (findSlidingWindow fp fut cur)" for c
    using r(3) [OF that(1), of c] that(2) by simp
  show "findSlidingWindow fp fut cur \<le> c"
    if "0 < windowScore fp (searchAreaOf cur fut) (findSlidingWindow fp fut cur)"
      "0 \<le> c \<and> c \<le> 2 * midPointOf cur fut
        \<and> windowScore fp (searchAreaOf cur fut) c
            = windowScore fp (searchAreaOf cur fut) (findSlidingWindow fp fut cur)"
      "\<bar>findSlidingWindow fp fut cur - midPointOf cur fut\<bar> = \<bar>c - midPointOf cur fut\<bar>" for c
    using r(3) [OF that(1), of c] that(2,3) by simp
  show "findSlidingWindow fp fut cur = int (qsize cur) - 1"
    if "windowScore fp (searchAreaOf cur fut) (findSlidingWindow fp fut cur) = 0"
    using r(4) [OF that] .
qed

lemma ones_length: "length ones = 32"
  by (simp add: ones_def)

lemma emptyQueue_size: "qsize (emptyQueue slots) = 0"
  by (simp add: qsize_def emptyQueue_def)

lemma ones_result: "findSlidingWindow ones twos twos = 31"
proof -
  have h: "length ones = OVERLAP_WINDOW_SIZE"
    "OVERLAP_WINDOW_SIZE \<le> qsize twos" "qsize twos \<le> QUEUE_SIZE"
    by (simp_all add: ones_length twos_shape OVERLAP_WINDOW_SIZE_def QUEUE_SIZE_def)
  note f = findSlidingWindow_fan [OF h(1,2,3,2,3)]
  have i0: "0 \<le> int (qsize twos) - 1" by (simp add: twos_shape)
  from fan_result(4) [OF f(2) windowScore_bounds(1) f(3) i0 f(4), folded f(1)] ones_score
  show ?thesis by (simp add: twos_shape)
qed

theorem findSlidingWindow_best_witness:
  "qsize (emptyQueue [packetOf 0]) < OVERLAP_WINDOW_SIZE
   \<and> findSlidingWindow ones (emptyQueue [packetOf 0]) twos = 0
   \<and> length ones = OVERLAP_WINDOW_SIZE
   \<and> OVERLAP_WINDOW_SIZE \<le> qsize twos \<and> qsize twos \<le> QUEUE_SIZE
   \<and> findSlidingWindow ones twos twos \<le> 2 * midPointOf twos twos
   \<and> windowScore ones (searchAreaOf twos twos) (findSlidingWindow ones twos twos) = 0
   \<and> findSlidingWindow ones twos twos = int (qsize twos) - 1"
  using findSlidingWindow_best [of "emptyQueue [packetOf 0]" twos ones]
        findSlidingWindow_best [of twos twos ones]
  by (simp add: twos_shape ones_score ones_length emptyQueue_size OVERLAP_WINDOW_SIZE_def
        QUEUE_SIZE_def)

text \<open>
  Claim C5 as stated fails on ties at score 0: with a fingerprint of 32 codes 1 and two
  queues of 32 codes 2 every candidate scores 0, the midpoint is 16, and the result is 31.
\<close>

theorem findSlidingWindow_tie_counterexample:
  "length ones = OVERLAP_WINDOW_SIZE \<and> qsize twos = OVERLAP_WINDOW_SIZE
   \<and> midPointOf twos twos = 16
   \<and> findSlidingWindow ones twos twos = 31
   \<and> windowScore ones (searchAreaOf twos twos) 16
       = windowScore ones (searchAreaOf twos twos) (findSlidingWindow ones twos twos)
   \<and> \<bar>16 - midPointOf twos twos\<bar> < \<bar>findSlidingWindow ones twos twos - midPointOf twos twos\<bar>"
  by (simp add: ones_result twos_shape ones_score ones_length OVERLAP_WINDOW_SIZE_def)

end
